theory Spec2Isabelle
  imports Complex_Main "HOL-Library.Word"
begin

section \<open>The serial monitor script and its environment\<close>

text \<open>
  \<^verbatim>\<open>serial_monitor.py\<close> is a straight-line script: open the port, print a banner,
  discard buffered input, poll for twenty seconds, close. Everything it does goes through
  calls into pyserial, \<^verbatim>\<open>time\<close> and \<^verbatim>\<open>print\<close>. The model keeps the script's control
  flow (the two \<^verbatim>\<open>try\<close> statements, the \<^verbatim>\<open>while\<close>, the two \<^verbatim>\<open>if\<close>s) and lets the
  environment answer every call: each call takes the next event of a script, which says
  which bytes reached the port meanwhile and whether the call returns or raises.
\<close>

subsection \<open>Bytes and text\<close>

type_synonym byte = "8 word"

text \<open>A Python \<^verbatim>\<open>str\<close> is a sequence of code points.\<close>

type_synonym ustr = "nat list"

definition str :: "string \<Rightarrow> ustr" where
  "str s = map of_char s"

subsection \<open>Exceptions\<close>

text \<open>
  The three classes the handlers tell apart. \<^verbatim>\<open>serial.SerialException\<close> is a subclass of
  \<^verbatim>\<open>Exception\<close>; \<^verbatim>\<open>KeyboardInterrupt\<close> is not. The text is what \<^verbatim>\<open>{e}\<close> formats to.
\<close>

datatype exn = SerialException ustr | KeyboardInterrupt | OtherException ustr

fun exn_str :: "exn \<Rightarrow> ustr" where
  "exn_str (SerialException m) = m"
| "exn_str KeyboardInterrupt = []"
| "exn_str (OtherException m) = m"

fun is_Exception :: "exn \<Rightarrow> bool" where
  "is_Exception KeyboardInterrupt = False"
| "is_Exception _ = True"

subsection \<open>The environment\<close>

text \<open>
  What the environment answers to one call: the call returns (\<open>Ok\<close>; \<open>Clock t\<close> for
  \<^verbatim>\<open>time.time()\<close>, seconds since the epoch; \<open>LocalTime s\<close> for the clock that
  \<^verbatim>\<open>time.strftime\<close> reads, local wall-clock time in whole seconds) or it raises.
  An event pairs the answer with the bytes that reached the port since the previous call.
\<close>

datatype resp = Ok | Clock real | LocalTime nat | Raised exn

type_synonym event = "byte list \<times> resp"

text \<open>The calls the script makes, as they appear in the trace of a run.\<close>

datatype call =
    CSerial | CPrint ustr | CReset | CTime | CInWaiting | CReadline
  | CStrftime | CFlush | CSleep | CClose "bool option"

text \<open>
  \<open>ser\<close> is the script's variable of that name: \<open>None\<close> while the name is unbound,
  \<open>Some b\<close> once it is bound, with \<open>b\<close> the handle's \<^verbatim>\<open>is_open\<close>. \<open>rx\<close> is the
  port's input buffer, \<open>out\<close> the records written by \<^verbatim>\<open>print\<close>, one per call,
  \<open>calls\<close> the calls made so far (\<open>CClose\<close> with the value of \<open>ser\<close> it was made on).
\<close>

record world =
  script :: "event list"
  rx :: "byte list"
  out :: "ustr list"
  calls :: "call list"
  ser :: "bool option"

definition init :: "event list \<Rightarrow> world" where
  "init es = \<lparr>script = es, rx = [], out = [], calls = [], ser = None\<rparr>"

text \<open>
  The result of running a piece of the script: it returned a value, it raised, or the
  script of events ended (or answered with the wrong kind of value) before it was done.
\<close>

datatype 'a res = Ret 'a world | Exc exn world | Stuck

definition and_then :: "'a res \<Rightarrow> ('a \<Rightarrow> world \<Rightarrow> 'b res) \<Rightarrow> 'b res" where
  "and_then m f = (case m of Ret a w \<Rightarrow> f a w | Exc e w \<Rightarrow> Exc e w | Stuck \<Rightarrow> Stuck)"

text \<open>
  Taking the next event: the call is recorded, and the bytes that arrived are queued when
  the port is open (a closed port receives nothing).
\<close>

definition next_event :: "call \<Rightarrow> world \<Rightarrow> (resp \<times> world) option" where
  "next_event c w =
     (case script w of
        [] \<Rightarrow> None
      | (bs, r) # es \<Rightarrow>
          Some (r, w\<lparr>script := es,
                     rx := (if ser w = Some True then rx w @ bs else rx w),
                     calls := calls w @ [c]\<rparr>))"

subsection \<open>The library calls\<close>

text \<open>\<^verbatim>\<open>serial.Serial(PORT, BAUDRATE, timeout=1)\<close>: on success \<open>ser\<close> is bound and open.\<close>

definition serial_Serial :: "world \<Rightarrow> unit res" where
  "serial_Serial w =
     (case next_event CSerial w of
        Some (Ok, w') \<Rightarrow> Ret () (w'\<lparr>ser := Some True\<rparr>)
      | Some (Raised e, w') \<Rightarrow> Exc e w'
      | _ \<Rightarrow> Stuck)"

text \<open>\<^verbatim>\<open>print(s)\<close>: one record on standard output.\<close>

definition py_print :: "ustr \<Rightarrow> world \<Rightarrow> unit res" where
  "py_print s w =
     (case next_event (CPrint s) w of
        Some (Ok, w') \<Rightarrow> Ret () (w'\<lparr>out := out w' @ [s]\<rparr>)
      | Some (Raised e, w') \<Rightarrow> Exc e w'
      | _ \<Rightarrow> Stuck)"

text \<open>\<^verbatim>\<open>ser.reset_input_buffer()\<close>: everything received and not yet read is dropped.\<close>

definition reset_input_buffer :: "world \<Rightarrow> unit res" where
  "reset_input_buffer w =
     (case next_event CReset w of
        Some (Ok, w') \<Rightarrow> Ret () (w'\<lparr>rx := []\<rparr>)
      | Some (Raised e, w') \<Rightarrow> Exc e w'
      | _ \<Rightarrow> Stuck)"

text \<open>\<^verbatim>\<open>time.time()\<close>.\<close>

definition time_time :: "world \<Rightarrow> real res" where
  "time_time w =
     (case next_event CTime w of
        Some (Clock t, w') \<Rightarrow> Ret t w'
      | Some (Raised e, w') \<Rightarrow> Exc e w'
      | _ \<Rightarrow> Stuck)"

text \<open>\<^verbatim>\<open>ser.in_waiting\<close>: the number of bytes in the input buffer.\<close>

definition in_waiting :: "world \<Rightarrow> nat res" where
  "in_waiting w =
     (case next_event CInWaiting w of
        Some (Ok, w') \<Rightarrow> Ret (length (rx w')) w'
      | Some (Raised e, w') \<Rightarrow> Exc e w'
      | _ \<Rightarrow> Stuck)"

text \<open>
  \<^verbatim>\<open>ser.readline()\<close>: the bytes up to and including the first newline; when the read
  times out before a newline comes, all the bytes there are.
\<close>

fun take_line :: "byte list \<Rightarrow> byte list \<times> byte list" where
  "take_line [] = ([], [])"
| "take_line (b # bs) =
     (if b = 0x0A then ([b], bs) else (let (l, r) = take_line bs in (b # l, r)))"

definition readline :: "world \<Rightarrow> byte list res" where
  "readline w =
     (case next_event CReadline w of
        Some (Ok, w') \<Rightarrow> (let (l, r) = take_line (rx w') in Ret l (w'\<lparr>rx := r\<rparr>))
      | Some (Raised e, w') \<Rightarrow> Exc e w'
      | _ \<Rightarrow> Stuck)"

text \<open>\<^verbatim>\<open>sys.stdout.flush()\<close> and \<^verbatim>\<open>time.sleep(0.01)\<close>.\<close>

definition stdout_flush :: "world \<Rightarrow> unit res" where
  "stdout_flush w =
     (case next_event CFlush w of
        Some (Ok, w') \<Rightarrow> Ret () w'
      | Some (Raised e, w') \<Rightarrow> Exc e w'
      | _ \<Rightarrow> Stuck)"

definition time_sleep :: "world \<Rightarrow> unit res" where
  "time_sleep w =
     (case next_event CSleep w of
        Some (Ok, w') \<Rightarrow> Ret () w'
      | Some (Raised e, w') \<Rightarrow> Exc e w'
      | _ \<Rightarrow> Stuck)"

text \<open>\<^verbatim>\<open>ser.close()\<close>: on success the handle is closed; a failed close leaves it as it was.\<close>

definition ser_close :: "world \<Rightarrow> unit res" where
  "ser_close w =
     (case next_event (CClose (ser w)) w of
        Some (Ok, w') \<Rightarrow> Ret () (w'\<lparr>ser := Some False\<rparr>)
      | Some (Raised e, w') \<Rightarrow> Exc e w'
      | _ \<Rightarrow> Stuck)"

text \<open>
  \<^verbatim>\<open>time.strftime('[%H:%M:%S]')\<close>: hours, minutes and seconds of the local time, two
  decimal digits each.
\<close>

definition two_digits :: "nat \<Rightarrow> ustr" where
  "two_digits n = [48 + n div 10, 48 + n mod 10]"

definition hms :: "nat \<Rightarrow> ustr" where
  "hms s = str ''['' @ two_digits (s div 3600 mod 24) @ str '':''
           @ two_digits (s div 60 mod 60) @ str '':'' @ two_digits (s mod 60) @ str '']''"

definition time_strftime :: "world \<Rightarrow> ustr res" where
  "time_strftime w =
     (case next_event CStrftime w of
        Some (LocalTime s, w') \<Rightarrow> Ret (hms s) w'
      | Some (Raised e, w') \<Rightarrow> Exc e w'
      | _ \<Rightarrow> Stuck)"

subsection \<open>Decoding and stripping\<close>

text \<open>
  \<^verbatim>\<open>bytes.decode('utf-8', errors='replace')\<close>, as CPython's decoder does it: a well-formed
  sequence gives its code point; an invalid start byte, a sequence broken by a byte that
  cannot continue it, and a sequence cut off by the end of the data are each one error
  span. \<open>utf8_unit\<close> decodes the unit at the head of the data and says how many bytes after
  the first it takes; \<open>None\<close> is an error span.
\<close>

definition is_cont :: "nat \<Rightarrow> bool" where
  "is_cont b = (128 \<le> b \<and> b < 192)"

fun utf8_unit :: "nat \<Rightarrow> nat list \<Rightarrow> nat option \<times> nat" where
  "utf8_unit b0 bs =
    (if b0 < 0x80 then (Some b0, 0)
     else if b0 < 0xC2 then (None, 0)
     else if b0 < 0xE0 then
       (case bs of
          [] \<Rightarrow> (None, 0)
        | b1 # _ \<Rightarrow>
            if \<not> is_cont b1 then (None, 0)
            else (Some (b0 * 64 + b1 - 0x3080), 1))
     else if b0 < 0xF0 then
       (case bs of
          [] \<Rightarrow> (None, 0)
        | [b1] \<Rightarrow>
            if \<not> is_cont b1 \<or> (if b1 < 0xA0 then b0 = 0xE0 else b0 = 0xED) then (None, 0)
            else (None, 1)
        | b1 # b2 # _ \<Rightarrow>
            if \<not> is_cont b1 then (None, 0)
            else if b0 = 0xE0 \<and> b1 < 0xA0 then (None, 0)
            else if b0 = 0xED \<and> 0xA0 \<le> b1 then (None, 0)
            else if \<not> is_cont b2 then (None, 1)
            else (Some (b0 * 4096 + b1 * 64 + b2 - 0xE2080), 2))
     else if b0 < 0xF5 then
       (case bs of
          [] \<Rightarrow> (None, 0)
        | [b1] \<Rightarrow>
            if \<not> is_cont b1 \<or> (if b1 < 0x90 then b0 = 0xF0 else b0 = 0xF4) then (None, 0)
            else (None, 1)
        | [b1, b2] \<Rightarrow>
            if \<not> is_cont b1 \<or> (if b1 < 0x90 then b0 = 0xF0 else b0 = 0xF4) then (None, 0)
            else if \<not> is_cont b2 then (None, 1)
            else (None, 2)
        | b1 # b2 # b3 # _ \<Rightarrow>
            if \<not> is_cont b1 then (None, 0)
            else if b0 = 0xF0 \<and> b1 < 0x90 then (None, 0)
            else if b0 = 0xF4 \<and> 0x90 \<le> b1 then (None, 0)
            else if \<not> is_cont b2 then (None, 1)
            else if \<not> is_cont b3 then (None, 2)
            else (Some (b0 * 262144 + b1 * 4096 + b2 * 64 + b3 - 0x3C82080), 3))
     else (None, 0))"

fun utf8_units :: "nat list \<Rightarrow> nat option list" where
  "utf8_units [] = []"
| "utf8_units (b # bs) = (case utf8_unit b bs of (u, k) \<Rightarrow> u # utf8_units (drop k bs))"

text \<open>\<^verbatim>\<open>errors='replace'\<close> puts U+FFFD in the place of each error span.\<close>

definition replacement :: nat where
  "replacement = 0xFFFD"

definition decode_utf8_replace :: "byte list \<Rightarrow> ustr" where
  "decode_utf8_replace bs =
     map (\<lambda>u. case u of Some c \<Rightarrow> c | None \<Rightarrow> replacement) (utf8_units (map unat bs))"

text \<open>\<^verbatim>\<open>str.rstrip()\<close> removes the trailing characters that \<^verbatim>\<open>str.isspace\<close> accepts.\<close>

definition is_space :: "nat \<Rightarrow> bool" where
  "is_space c =
     ((0x09 \<le> c \<and> c \<le> 0x0D) \<or> (0x1C \<le> c \<and> c \<le> 0x20) \<or> c = 0x85 \<or> c = 0xA0
      \<or> c = 0x1680 \<or> (0x2000 \<le> c \<and> c \<le> 0x200A) \<or> c = 0x2028 \<or> c = 0x2029
      \<or> c = 0x202F \<or> c = 0x205F \<or> c = 0x3000)"

definition rstrip :: "ustr \<Rightarrow> ustr" where
  "rstrip s = rev (dropWhile is_space (rev s))"

subsection \<open>The script\<close>

text \<open>
  Lines 27 to 31, the body of the inner \<^verbatim>\<open>try\<close>: read a line, decode, strip, and print it
  with its timestamp unless it is empty.
\<close>

definition read_and_print :: "world \<Rightarrow> unit res" where
  "read_and_print w =
     and_then (readline w) (\<lambda>raw w.
       let line = rstrip (decode_utf8_replace raw) in
       if line \<noteq> [] then
         and_then (time_strftime w) (\<lambda>timestamp w.
         and_then (py_print (timestamp @ str '' '' @ line) w) (\<lambda>_ w.
         stdout_flush w))
       else Ret () w)"

text \<open>
  Lines 25 to 35, the body of the \<^verbatim>\<open>while\<close>. The inner handler is
  \<^verbatim>\<open>except Exception\<close>: a \<^verbatim>\<open>KeyboardInterrupt\<close> passes through it.
\<close>

definition iteration :: "world \<Rightarrow> unit res" where
  "iteration w =
     and_then (in_waiting w) (\<lambda>n w.
       if n > 0 then
         (case read_and_print w of
            Exc e w' \<Rightarrow>
              if is_Exception e then py_print (str ''Error reading line: '' @ exn_str e) w'
              else Exc e w'
          | r \<Rightarrow> r)
       else time_sleep w)"

text \<open>Line 24: \<^verbatim>\<open>while time.time() - start_time < 20\<close>.\<close>

function monitor_loop :: "real \<Rightarrow> world \<Rightarrow> unit res" where
  "monitor_loop start_time w =
     (case time_time w of
        Ret t w1 \<Rightarrow>
          if t - start_time < 20 then
            (case iteration w1 of
               Ret _ w2 \<Rightarrow> monitor_loop start_time w2
             | Exc e w2 \<Rightarrow> Exc e w2
             | Stuck \<Rightarrow> Stuck)
          else Ret () w1
      | Exc e w1 \<Rightarrow> Exc e w1
      | Stuck \<Rightarrow> Stuck)"
  by pat_completeness auto

text \<open>Every call takes an event, so the loop ends with the script at the latest.\<close>

fun world_of :: "'a res \<Rightarrow> world option" where
  "world_of (Ret _ w) = Some w"
| "world_of (Exc _ w) = Some w"
| "world_of Stuck = None"

lemma next_event_shorter:
  "next_event c w = Some (r, w') \<Longrightarrow> length (script w') < length (script w)"
  by (auto simp: next_event_def split: list.splits)

lemma time_time_shorter:
  "world_of (time_time w) = Some w' \<Longrightarrow> length (script w') < length (script w)"
  by (auto simp: time_time_def next_event_def split: list.splits resp.splits)

lemma in_waiting_shorter:
  "world_of (in_waiting w) = Some w' \<Longrightarrow> length (script w') < length (script w)"
  by (auto simp: in_waiting_def next_event_def split: list.splits resp.splits)

lemma time_sleep_shorter:
  "world_of (time_sleep w) = Some w' \<Longrightarrow> length (script w') < length (script w)"
  by (auto simp: time_sleep_def next_event_def split: list.splits resp.splits)

lemma stdout_flush_shorter:
  "world_of (stdout_flush w) = Some w' \<Longrightarrow> length (script w') < length (script w)"
  by (auto simp: stdout_flush_def next_event_def split: list.splits resp.splits)

lemma py_print_shorter:
  "world_of (py_print s w) = Some w' \<Longrightarrow> length (script w') < length (script w)"
  by (auto simp: py_print_def next_event_def split: list.splits resp.splits)

lemma time_strftime_shorter:
  "world_of (time_strftime w) = Some w' \<Longrightarrow> length (script w') < length (script w)"
  by (auto simp: time_strftime_def next_event_def split: list.splits resp.splits)

lemma readline_shorter:
  "world_of (readline w) = Some w' \<Longrightarrow> length (script w') < length (script w)"
  by (auto simp: readline_def next_event_def split: list.splits resp.splits prod.splits)

lemma and_then_shorter:
  assumes "world_of (and_then m f) = Some w'"
    and "\<And>w1. world_of m = Some w1 \<Longrightarrow> length (script w1) < length (script w)"
    and "\<And>a w1 w2. m = Ret a w1 \<Longrightarrow> world_of (f a w1) = Some w2
           \<Longrightarrow> length (script w2) \<le> length (script w1)"
  shows "length (script w') < length (script w)"
proof (cases m)
  case (Ret a w1)
  with assms(1) have "world_of (f a w1) = Some w'" by (simp add: and_then_def)
  from assms(3)[OF Ret this] assms(2)[of w1] Ret show ?thesis by simp
next
  case (Exc e w1)
  with assms(1) assms(2)[of w1] show ?thesis by (simp add: and_then_def)
next
  case Stuck
  with assms(1) show ?thesis by (simp add: and_then_def)
qed

lemma stamp_print_flush_shorter:
  assumes "world_of (and_then (time_strftime w) (\<lambda>timestamp w.
             and_then (py_print (timestamp @ str '' '' @ l) w) (\<lambda>_ w. stdout_flush w))) = Some w'"
  shows "length (script w') < length (script w)"
proof (rule and_then_shorter[OF assms])
  fix w1 assume "world_of (time_strftime w) = Some w1"
  then show "length (script w1) < length (script w)" by (rule time_strftime_shorter)
next
  fix a w1 w2
  assume "world_of (and_then (py_print (a @ str '' '' @ l) w1) (\<lambda>_ w. stdout_flush w)) = Some w2"
  then have "length (script w2) < length (script w1)"
  proof (rule and_then_shorter)
    fix w3 assume "world_of (py_print (a @ str '' '' @ l) w1) = Some w3"
    then show "length (script w3) < length (script w1)" by (rule py_print_shorter)
  next
    fix w3 w4 assume "world_of (stdout_flush w3) = Some w4"
    then show "length (script w4) \<le> length (script w3)"
      by (rule less_imp_le[OF stdout_flush_shorter])
  qed
  then show "length (script w2) \<le> length (script w1)" by simp
qed

lemma read_and_print_shorter:
  assumes "world_of (read_and_print w) = Some w'"
  shows "length (script w') < length (script w)"
proof (rule and_then_shorter[OF assms[unfolded read_and_print_def]])
  fix w1 assume "world_of (readline w) = Some w1"
  then show "length (script w1) < length (script w)" by (rule readline_shorter)
next
  fix a w1 w2
  assume "world_of (let line = rstrip (decode_utf8_replace a) in
            if line \<noteq> [] then
              and_then (time_strftime w1) (\<lambda>timestamp w.
              and_then (py_print (timestamp @ str '' '' @ line) w) (\<lambda>_ w. stdout_flush w))
            else Ret () w1) = Some w2"
  then show "length (script w2) \<le> length (script w1)"
    by (auto simp: Let_def split: if_splits dest: stamp_print_flush_shorter)
qed

lemma iteration_shorter:
  assumes "world_of (iteration w) = Some w'"
  shows "length (script w') < length (script w)"
proof (rule and_then_shorter[OF assms[unfolded iteration_def]])
  fix w1 assume "world_of (in_waiting w) = Some w1"
  then show "length (script w1) < length (script w)" by (rule in_waiting_shorter)
next
  fix n :: nat and w1 w2
  assume *: "world_of (if n > 0 then
            (case read_and_print w1 of
               Exc e w' \<Rightarrow>
                 if is_Exception e then py_print (str ''Error reading line: '' @ exn_str e) w'
                 else Exc e w'
             | r \<Rightarrow> r)
          else time_sleep w1) = Some w2"
  show "length (script w2) \<le> length (script w1)"
  proof (cases "n > 0")
    case False
    with * show ?thesis by (auto dest: time_sleep_shorter)
  next
    case True
    show ?thesis
    proof (cases "read_and_print w1")
      case (Ret u w3)
      with * True read_and_print_shorter[of w1 w3] show ?thesis by simp
    next
      case (Exc e w3)
      with read_and_print_shorter[of w1 w3] have "length (script w3) < length (script w1)"
        by simp
      with * True Exc show ?thesis
        by (auto split: if_splits dest!: py_print_shorter)
    next
      case Stuck
      with * True show ?thesis by simp
    qed
  qed
qed

termination monitor_loop
proof (relation "measure (\<lambda>(s, w). length (script w))")
  show "wf (measure (\<lambda>(s, w). length (script w)))" by simp
next
  fix start_time :: real and w :: world and t w1 u w2
  assume "time_time w = Ret t w1" and "iteration w1 = Ret u w2"
  then have "world_of (time_time w) = Some w1" and "world_of (iteration w1) = Some w2"
    by simp_all
  from time_time_shorter[OF this(1)] iteration_shorter[OF this(2)]
  show "((start_time, w2), (start_time, w)) \<in> measure (\<lambda>(s, w). length (script w))"
    by simp
qed

declare monitor_loop.simps [simp del]

text \<open>The constants of lines 7 and 8, and how an f-string formats the integer.\<close>

definition PORT :: ustr where
  "PORT = str ''/dev/ttyUSB0''"

definition BAUDRATE :: nat where
  "BAUDRATE = 115200"

fun decimal :: "nat \<Rightarrow> ustr" where
  "decimal n = (if n < 10 then [48 + n] else decimal (n div 10) @ [48 + n mod 10])"

declare decimal.simps [simp del]

text \<open>Lines 14 to 17, the banner.\<close>

definition print_banner :: "world \<Rightarrow> unit res" where
  "print_banner w =
     and_then (py_print (str ''=== ESP32 Serial Monitor ==='') w) (\<lambda>_ w.
     and_then (py_print (str ''Port: '' @ PORT @ str '', Baud: '' @ decimal BAUDRATE) w) (\<lambda>_ w.
     and_then (py_print (str ''Press Ctrl+C to exit'') w) (\<lambda>_ w.
     py_print (concat (replicate 50 (str ''=''))) w)))"

text \<open>Lines 23 to 35: the start time is recorded, then the loop runs.\<close>

definition read_and_display :: "world \<Rightarrow> unit res" where
  "read_and_display w = and_then (time_time w) (\<lambda>start_time w. monitor_loop start_time w)"

text \<open>Lines 11 to 38, the body of the outer \<^verbatim>\<open>try\<close>.\<close>

definition try_body :: "world \<Rightarrow> unit res" where
  "try_body w =
     and_then (serial_Serial w) (\<lambda>_ w.
     and_then (print_banner w) (\<lambda>_ w.
     and_then (reset_input_buffer w) (\<lambda>_ w.
     and_then (read_and_display w) (\<lambda>_ w.
     and_then (ser_close w) (\<lambda>_ w.
     py_print (10 # str ''Monitoring complete.'') w)))))"

text \<open>
  Lines 40 to 47, the three handlers of the outer \<^verbatim>\<open>try\<close>, tried in the order they are
  written. An exception raised inside a handler is not handled by its siblings.
\<close>

definition handlers :: "unit res \<Rightarrow> unit res" where
  "handlers r =
     (case r of
        Exc e w \<Rightarrow>
          (case e of
             SerialException _ \<Rightarrow> py_print (str ''Error opening serial port: '' @ exn_str e) w
           | KeyboardInterrupt \<Rightarrow>
               and_then (py_print (10 # str ''Monitoring stopped by user.'') w) (\<lambda>_ w.
                 if ser w \<noteq> None \<and> ser w = Some True then ser_close w else Ret () w)
           | OtherException _ \<Rightarrow> py_print (str ''Unexpected error: '' @ exn_str e) w)
      | _ \<Rightarrow> r)"

text \<open>Lines 10 to 47, the whole script.\<close>

definition main :: "world \<Rightarrow> unit res" where
  "main w = handlers (try_body w)"

text \<open>
  How the process ends: status 0 when the script runs off its end, a traceback and a
  status other than 0 when an exception is left unhandled.
\<close>

datatype ending = Exit0 | Traceback exn

fun ending_of :: "unit res \<Rightarrow> ending option" where
  "ending_of (Ret _ _) = Some Exit0"
| "ending_of (Exc e _) = Some (Traceback e)"
| "ending_of Stuck = None"

subsection \<open>Vocabulary for the properties\<close>

text \<open>
  The calls the loop makes: all but opening, resetting and closing. \<open>polls w w'\<close> says
  that \<open>w'\<close> comes from \<open>w\<close> by such calls only, with the handle as it was.
\<close>

fun is_loop_call :: "call \<Rightarrow> bool" where
  "is_loop_call CSerial = False"
| "is_loop_call CReset = False"
| "is_loop_call (CClose _) = False"
| "is_loop_call _ = True"

definition polls :: "world \<Rightarrow> world \<Rightarrow> bool" where
  "polls w w' = (ser w' = ser w \<and> (\<exists>cs. calls w' = calls w @ cs \<and> list_all is_loop_call cs))"

text \<open>
  The four banner lines. \<open>started pre t0\<close>: the events \<open>pre\<close> let the script open the
  port, print the banner, reset the buffer and read the start time \<open>t0\<close>, with any bytes
  arriving meanwhile. \<open>at_loop pre es\<close> is the world in which the loop then starts, with
  the events \<open>es\<close> to come.
\<close>

definition banner :: "ustr list" where
  "banner =
     [str ''=== ESP32 Serial Monitor ==='',
      str ''Port: '' @ PORT @ str '', Baud: '' @ decimal BAUDRATE,
      str ''Press Ctrl+C to exit'',
      concat (replicate 50 (str ''=''))]"

definition started :: "event list \<Rightarrow> real \<Rightarrow> bool" where
  "started pre t0 = (map snd pre = [Ok, Ok, Ok, Ok, Ok, Ok, Clock t0])"

definition at_loop :: "event list \<Rightarrow> event list \<Rightarrow> world" where
  "at_loop pre es =
     \<lparr>script = es, rx = fst (last pre), out = banner,
      calls = CSerial # map CPrint banner @ [CReset, CTime], ser = Some True\<rparr>"

text \<open>The world after a call that took the event \<open>(a, r)\<close>.\<close>

definition took :: "call \<Rightarrow> byte list \<Rightarrow> event list \<Rightarrow> world \<Rightarrow> world" where
  "took c a es w =
     w\<lparr>script := es, rx := (if ser w = Some True then rx w @ a else rx w),
       calls := calls w @ [c]\<rparr>"

text \<open>
  A run in which the device is unplugged during the loop: the port opens, the banner is
  printed, the buffer is reset, the loop starts, and the first \<^verbatim>\<open>ser.in_waiting\<close> raises
  the \<^verbatim>\<open>OSError\<close> of a vanished device.
\<close>

definition unplugged :: "event list" where
  "unplugged =
     [([], Ok), ([], Ok), ([], Ok), ([], Ok), ([], Ok), ([], Ok), ([], Clock 0),
      ([], Clock 1), ([], Raised (OtherException (str ''[Errno 5] Input/output error''))),
      ([], Ok)]"

text \<open>
  The message of the interrupt handler. \<open>quiet_start\<close> are the events of a start-up
  during which nothing arrives, with the start time 0. In \<open>ctrl_c_while_reading\<close> two
  bytes are waiting and the interrupt comes during \<^verbatim>\<open>ser.readline()\<close>, inside the inner
  \<^verbatim>\<open>try\<close>; \<open>ctrl_c_twice\<close> is the same run with a second interrupt during the handler's
  \<^verbatim>\<open>ser.close()\<close>. In \<open>ctrl_c_after_close\<close> the deadline has passed at the first check,
  the port is closed, and the interrupt comes during the last \<^verbatim>\<open>print\<close>.
\<close>

definition stopped :: ustr where
  "stopped = 10 # str ''Monitoring stopped by user.''"

definition quiet_start :: "event list" where
  "quiet_start = [([], Ok), ([], Ok), ([], Ok), ([], Ok), ([], Ok), ([], Ok), ([], Clock 0)]"

definition ctrl_c_while_reading :: "event list" where
  "ctrl_c_while_reading =
     [([], Clock 1), ([0x68, 0x69], Ok), ([], Raised KeyboardInterrupt), ([], Ok), ([], Ok)]"

definition ctrl_c_twice :: "event list" where
  "ctrl_c_twice =
     [([], Clock 1), ([0x68, 0x69], Ok), ([], Raised KeyboardInterrupt), ([], Ok),
      ([], Raised KeyboardInterrupt)]"

definition ctrl_c_after_close :: "event list" where
  "ctrl_c_after_close =
     [([], Clock 20), ([], Ok), ([], Raised KeyboardInterrupt), ([], Ok)]"

text \<open>
  \<open>closes_ok w\<close>: every \<^verbatim>\<open>ser.close()\<close> of the run was made on a handle that was bound
  and open.
\<close>

fun close_on_open :: "call \<Rightarrow> bool" where
  "close_on_open (CClose s) = (s = Some True)"
| "close_on_open _ = True"

definition closes_ok :: "world \<Rightarrow> bool" where
  "closes_ok w = list_all close_on_open (calls w)"

text \<open>
  In \<open>read_fails\<close> two bytes arrive, the read raises, and the next check of the clock
  finds the deadline passed.
\<close>

definition read_fails :: "event list" where
  "read_fails =
     [([], Clock 1), ([0x68, 0x69], Ok), ([], Raised (SerialException (str ''read failed''))),
      ([], Ok), ([], Clock 20)]"

text \<open>
  \<open>read_stamp\<close> reads a record of the form \<^verbatim>\<open>[HH:MM:SS] rest\<close> back: two decimal
  digits each for hours, minutes and seconds, between brackets and colons, and one space.
  \<open>printed_line w r bs es\<close> is the world after a line was stamped, printed as the record
  \<open>r\<close> and flushed, on an open port, while the bytes \<open>bs\<close> arrived.
\<close>

definition is_digit :: "nat \<Rightarrow> bool" where
  "is_digit c = (48 \<le> c \<and> c \<le> 57)"

definition read_stamp :: "ustr \<Rightarrow> ((nat \<times> nat \<times> nat) \<times> ustr) option" where
  "read_stamp r =
     (if 11 \<le> length r \<and> r ! 0 = 91 \<and> r ! 3 = 58 \<and> r ! 6 = 58 \<and> r ! 9 = 93 \<and> r ! 10 = 32
         \<and> list_all is_digit [r ! 1, r ! 2, r ! 4, r ! 5, r ! 7, r ! 8]
      then Some ((10 * (r ! 1 - 48) + (r ! 2 - 48), 10 * (r ! 4 - 48) + (r ! 5 - 48),
                  10 * (r ! 7 - 48) + (r ! 8 - 48)), drop 11 r)
      else None)"

definition printed_line :: "world \<Rightarrow> ustr \<Rightarrow> byte list \<Rightarrow> event list \<Rightarrow> world" where
  "printed_line w r bs es =
     w\<lparr>script := es, rx := rx w @ bs, out := out w @ [r],
       calls := calls w @ [CStrftime, CPrint r, CFlush]\<rparr>"

text \<open>
  In \<open>two_lines\<close> the device sends \<^verbatim>\<open>hello\r\n\<close> and then an empty line; in \<open>bad_byte\<close>
  it sends \<^verbatim>\<open>\xffbad\r\n\<close>. The local time is 12:34:56.
\<close>

definition two_lines :: "event list" where
  "two_lines =
     [([], Clock 1), ([0x68, 0x65, 0x6C, 0x6C, 0x6F, 0x0D, 0x0A], Ok), ([], Ok),
      ([], LocalTime 45296), ([], Ok), ([], Ok),
      ([0x0D, 0x0A], Clock 2), ([], Ok), ([], Ok),
      ([], Clock 20)]"


text \<open>
  In \<open>second_ctrl_c\<close> the idle loop is interrupted in its sleep and a second interrupt
  arrives while the handler prints. In \<open>open_refused\<close> the port cannot be opened; in
  \<open>nothing_received\<close> the deadline has passed at the first check and the script completes.
\<close>

definition second_ctrl_c :: "event list" where
  "second_ctrl_c =
     [([], Clock 1), ([], Ok), ([], Raised KeyboardInterrupt), ([], Raised KeyboardInterrupt)]"

definition open_refused :: "event list" where
  "open_refused =
     [([], Raised (SerialException (str ''could not open port''))), ([], Ok), ([], Ok)]"

definition nothing_received :: "event list" where
  "nothing_received = [([], Clock 20), ([], Ok), ([], Ok)]"

text \<open>
  A run of the loop without input: \<open>idle_script ts\<close> answers each turn's reading of the
  clock with the next time of \<open>ts\<close>, the poll and the sleep with a return, and lets no byte
  arrive. \<open>idled w k ts\<close> is the world when the loop ends at its reading number \<open>k\<close>,
  after \<open>k\<close> idle turns. \<open>previous_reading t0 ts k\<close> is the reading before that one: the
  start time for the first turn. In \<open>slow_turn\<close> the clock is read at once after the start,
  19 seconds later, and then only 5 seconds after that; in \<open>brisk_turns\<close> the turns
  around the deadline take some 10 ms.
\<close>

fun idle_script :: "real list \<Rightarrow> event list" where
  "idle_script [] = []"
| "idle_script (t # ts) = ([], Clock t) # ([], Ok) # ([], Ok) # idle_script ts"

definition idled :: "world \<Rightarrow> nat \<Rightarrow> real list \<Rightarrow> world" where
  "idled w k ts =
     w\<lparr>script := drop (3 * k + 1) (idle_script ts),
       calls := calls w @ concat (replicate k [CTime, CInWaiting, CSleep]) @ [CTime]\<rparr>"

definition previous_reading :: "real \<Rightarrow> real list \<Rightarrow> nat \<Rightarrow> real" where
  "previous_reading t0 ts k = (if k = 0 then t0 else ts ! (k - 1))"

definition slow_turn :: "real list" where
  "slow_turn = [0, 19, 24]"

definition brisk_turns :: "real list" where
  "brisk_turns = [0, 10, 19.99, 20.002, 20.014]"

text \<open>
  \<open>clean es\<close>: none of the events \<open>es\<close> is an interrupt. \<open>traced w r\<close>: the result \<open>r\<close>
  of a piece of the script run from \<open>w\<close> came about by taking events from the front of
  the script of \<open>w\<close>; when it returned, none of the events taken was an interrupt; when it
  raised, the exception is the one of the last event taken, and none before it was an
  interrupt.
\<close>

definition clean :: "event list \<Rightarrow> bool" where
  "clean es = list_all (\<lambda>ev. snd ev \<noteq> Raised KeyboardInterrupt) es"

definition traced :: "world \<Rightarrow> 'a res \<Rightarrow> bool" where
  "traced w r =
     (case r of
        Ret _ w' \<Rightarrow> \<exists>es. script w = es @ script w' \<and> clean es
      | Exc e w' \<Rightarrow> \<exists>es a. script w = es @ (a, Raised e) # script w' \<and> clean es
      | Stuck \<Rightarrow> True)"

text \<open>
  The plain calls: opening, printing, closing; they read neither the clock nor the
  input. \<open>reset_once cs\<close>: the calls \<open>cs\<close> begin with plain calls, the first other call,
  if there is one, is the reset of the input buffer, and no reset follows it: so the buffer
  is reset before the clock is read or the input polled or read, and once.
  \<open>before_reset\<close>, \<open>after_reset\<close> and \<open>reset_ok\<close> are the two phases of a run and
  their union.
\<close>

fun plain_call :: "call \<Rightarrow> bool" where
  "plain_call CSerial = True"
| "plain_call (CPrint _) = True"
| "plain_call (CClose _) = True"
| "plain_call _ = False"

definition reset_once :: "call list \<Rightarrow> bool" where
  "reset_once cs =
     (case dropWhile plain_call cs of
        [] \<Rightarrow> True
      | c # r \<Rightarrow> c = CReset \<and> CReset \<notin> set r)"

definition before_reset :: "world \<Rightarrow> bool" where
  "before_reset w = list_all plain_call (calls w)"

definition after_reset :: "world \<Rightarrow> bool" where
  "after_reset w = (reset_once (calls w) \<and> CReset \<in> set (calls w))"

definition reset_ok :: "world \<Rightarrow> bool" where
  "reset_ok w = (before_reset w \<or> after_reset w)"

text \<open>
  Two worlds are \<open>blind\<close> to each other when they differ only in the bytes received and
  arriving: same output, same calls, same handle, same answers to come. \<open>stale n\<close>: and
  after the next \<open>n\<close> events the scripts are the same. \<open>rel R\<close> relates two results of the
  same kind: returned values equal and worlds in \<open>R\<close>, or the same exception and worlds
  blind to each other.
\<close>

definition blind :: "world \<Rightarrow> world \<Rightarrow> bool" where
  "blind w w' =
     (out w = out w' \<and> calls w = calls w' \<and> ser w = ser w'
      \<and> map snd (script w) = map snd (script w'))"

definition stale :: "nat \<Rightarrow> world \<Rightarrow> world \<Rightarrow> bool" where
  "stale n w w' = (blind w w' \<and> drop n (script w) = drop n (script w'))"

fun rel :: "(world \<Rightarrow> world \<Rightarrow> bool) \<Rightarrow> 'a res \<Rightarrow> 'a res \<Rightarrow> bool" where
  "rel R (Ret a v) (Ret b v') = (a = b \<and> R v v')"
| "rel R (Exc e v) (Exc e' v') = (e = e' \<and> blind v v')"
| "rel R Stuck Stuck = True"
| "rel R _ _ = False"

text \<open>
  In \<open>stale_start\<close> the bytes \<^verbatim>\<open>old\n\<close> arrive while the banner is printed and one
  more during the reset; \<open>one_idle_turn\<close> reads the start time, finds no input in one
  turn, and completes.
\<close>

definition stale_start :: "event list" where
  "stale_start =
     [([], Ok), ([0x6F, 0x6C, 0x64, 0x0A], Ok), ([], Ok), ([], Ok), ([], Ok), ([0x21], Ok)]"

definition one_idle_turn :: "event list" where
  "one_idle_turn =
     [([], Clock 0), ([], Clock 1), ([], Ok), ([], Ok), ([], Clock 20), ([], Ok), ([], Ok)]"

section \<open>Properties\<close>

subsection \<open>Evaluating one call\<close>

lemma and_then_simps [simp]:
  "and_then (Ret a w) f = f a w"
  "and_then (Exc e w) f = Exc e w"
  "and_then Stuck f = Stuck"
  by (simp_all add: and_then_def)

lemmas call_defs =
  serial_Serial_def py_print_def reset_input_buffer_def time_time_def in_waiting_def
  readline_def stdout_flush_def time_sleep_def ser_close_def time_strftime_def

lemma next_event_Cons:
  "script w = (a, r) # es \<Longrightarrow> next_event c w = Some (r, took c a es w)"
  by (simp add: next_event_def took_def)

lemma next_event_Nil: "script w = [] \<Longrightarrow> next_event c w = None"
  by (simp add: next_event_def)

lemma took_sel [simp]:
  "script (took c a es w) = es"
  "rx (took c a es w) = (if ser w = Some True then rx w @ a else rx w)"
  "out (took c a es w) = out w"
  "calls (took c a es w) = calls w @ [c]"
  "ser (took c a es w) = ser w"
  by (simp_all add: took_def)

lemma serial_Serial_Ok:
  "script w = (a, Ok) # es \<Longrightarrow> serial_Serial w = Ret () ((took CSerial a es w)\<lparr>ser := Some True\<rparr>)"
  by (simp add: serial_Serial_def next_event_Cons)

lemma py_print_Ok:
  "script w = (a, Ok) # es \<Longrightarrow>
   py_print s w = Ret () ((took (CPrint s) a es w)\<lparr>out := out w @ [s]\<rparr>)"
  by (simp add: py_print_def next_event_Cons)

lemma reset_input_buffer_Ok:
  "script w = (a, Ok) # es \<Longrightarrow> reset_input_buffer w = Ret () ((took CReset a es w)\<lparr>rx := []\<rparr>)"
  by (simp add: reset_input_buffer_def next_event_Cons)

lemma time_time_Clock:
  "script w = (a, Clock t) # es \<Longrightarrow> time_time w = Ret t (took CTime a es w)"
  by (simp add: time_time_def next_event_Cons)

lemma in_waiting_Ok:
  "script w = (a, Ok) # es \<Longrightarrow>
   in_waiting w = Ret (length (rx (took CInWaiting a es w))) (took CInWaiting a es w)"
  by (simp add: in_waiting_def next_event_Cons)

lemma readline_Ok:
  "script w = (a, Ok) # es \<Longrightarrow>
   readline w = Ret (fst (take_line (rx (took CReadline a es w))))
                  ((took CReadline a es w)\<lparr>rx := snd (take_line (rx (took CReadline a es w)))\<rparr>)"
  by (simp add: readline_def next_event_Cons split: prod.splits)

lemma time_strftime_LocalTime:
  "script w = (a, LocalTime s) # es \<Longrightarrow> time_strftime w = Ret (hms s) (took CStrftime a es w)"
  by (simp add: time_strftime_def next_event_Cons)

lemma stdout_flush_Ok:
  "script w = (a, Ok) # es \<Longrightarrow> stdout_flush w = Ret () (took CFlush a es w)"
  by (simp add: stdout_flush_def next_event_Cons)

lemma time_sleep_Ok:
  "script w = (a, Ok) # es \<Longrightarrow> time_sleep w = Ret () (took CSleep a es w)"
  by (simp add: time_sleep_def next_event_Cons)

lemma ser_close_Ok:
  "script w = (a, Ok) # es \<Longrightarrow>
   ser_close w = Ret () ((took (CClose (ser w)) a es w)\<lparr>ser := Some False\<rparr>)"
  by (simp add: ser_close_def next_event_Cons)

lemma call_Raised:
  assumes "script w = (a, Raised e) # es"
  shows "serial_Serial w = Exc e (took CSerial a es w)"
    and "py_print s w = Exc e (took (CPrint s) a es w)"
    and "reset_input_buffer w = Exc e (took CReset a es w)"
    and "time_time w = Exc e (took CTime a es w)"
    and "in_waiting w = Exc e (took CInWaiting a es w)"
    and "readline w = Exc e (took CReadline a es w)"
    and "time_strftime w = Exc e (took CStrftime a es w)"
    and "stdout_flush w = Exc e (took CFlush a es w)"
    and "time_sleep w = Exc e (took CSleep a es w)"
    and "ser_close w = Exc e (took (CClose (ser w)) a es w)"
  using assms by (simp_all add: call_defs next_event_Cons)

lemmas call_Ok =
  serial_Serial_Ok py_print_Ok reset_input_buffer_Ok time_time_Clock in_waiting_Ok
  readline_Ok time_strftime_LocalTime stdout_flush_Ok time_sleep_Ok ser_close_Ok

subsection \<open>From the start to the loop\<close>

lemma startedE:
  assumes "started pre t0"
  obtains a0 a1 a2 a3 a4 a5 a6 where
    "pre = [(a0, Ok), (a1, Ok), (a2, Ok), (a3, Ok), (a4, Ok), (a5, Ok), (a6, Clock t0)]"
proof -
  from assms have "map snd pre = [Ok, Ok, Ok, Ok, Ok, Ok, Clock t0]"
    by (simp add: started_def)
  then obtain a0 a1 a2 a3 a4 a5 a6 where
    "pre = [(a0, Ok), (a1, Ok), (a2, Ok), (a3, Ok), (a4, Ok), (a5, Ok), (a6, Clock t0)]"
    by (auto simp: map_eq_Cons_conv)
  then show thesis by (rule that)
qed

lemma try_body_started:
  assumes "started pre t0"
  shows "try_body (init (pre @ es)) =
           and_then (monitor_loop t0 (at_loop pre es)) (\<lambda>_ w.
           and_then (ser_close w) (\<lambda>_ w.
           py_print (10 # str ''Monitoring complete.'') w))"
proof -
  from assms obtain a0 a1 a2 a3 a4 a5 a6 where
    pre: "pre = [(a0, Ok), (a1, Ok), (a2, Ok), (a3, Ok), (a4, Ok), (a5, Ok), (a6, Clock t0)]"
    by (rule startedE)
  show ?thesis
    unfolding pre try_body_def print_banner_def read_and_display_def
    by (simp add: init_def at_loop_def banner_def call_Ok took_def)
qed

lemma at_loop_sel [simp]:
  "script (at_loop pre es) = es"
  "ser (at_loop pre es) = Some True"
  "out (at_loop pre es) = banner"
  by (simp_all add: at_loop_def)

subsection \<open>The loop only polls\<close>

lemma polls_refl [simp]: "polls w w"
  by (simp add: polls_def)

lemma polls_trans: "polls w w1 \<Longrightarrow> polls w1 w2 \<Longrightarrow> polls w w2"
  by (auto simp: polls_def)

lemma and_then_cases:
  assumes "world_of (and_then m f) = Some w'"
  obtains e where "m = Exc e w'"
  | a w1 where "m = Ret a w1" and "world_of (f a w1) = Some w'"
  using assms by (cases m) auto

lemma and_then_polls:
  assumes "world_of (and_then m f) = Some w'"
    and "\<And>w1. world_of m = Some w1 \<Longrightarrow> polls w w1"
    and "\<And>a w1 w2. m = Ret a w1 \<Longrightarrow> world_of (f a w1) = Some w2 \<Longrightarrow> polls w1 w2"
  shows "polls w w'"
  using assms(1)
proof (cases rule: and_then_cases)
  case (1 e)
  with assms(2)[of w'] show ?thesis by simp
next
  case (2 a w1)
  from assms(2)[of w1] 2(1) have "polls w w1" by simp
  with assms(3)[OF 2] show ?thesis by (rule polls_trans[rotated]) 
qed

lemma time_time_polls: "world_of (time_time w) = Some w' \<Longrightarrow> polls w w'"
  by (auto simp: time_time_def next_event_def polls_def split: list.splits resp.splits)

lemma in_waiting_polls: "world_of (in_waiting w) = Some w' \<Longrightarrow> polls w w'"
  by (auto simp: in_waiting_def next_event_def polls_def split: list.splits resp.splits)

lemma time_sleep_polls: "world_of (time_sleep w) = Some w' \<Longrightarrow> polls w w'"
  by (auto simp: time_sleep_def next_event_def polls_def split: list.splits resp.splits)

lemma stdout_flush_polls: "world_of (stdout_flush w) = Some w' \<Longrightarrow> polls w w'"
  by (auto simp: stdout_flush_def next_event_def polls_def split: list.splits resp.splits)

lemma py_print_polls: "world_of (py_print s w) = Some w' \<Longrightarrow> polls w w'"
  by (auto simp: py_print_def next_event_def polls_def split: list.splits resp.splits)

lemma time_strftime_polls: "world_of (time_strftime w) = Some w' \<Longrightarrow> polls w w'"
  by (auto simp: time_strftime_def next_event_def polls_def split: list.splits resp.splits)

lemma readline_polls: "world_of (readline w) = Some w' \<Longrightarrow> polls w w'"
  by (auto simp: readline_def next_event_def polls_def split: list.splits resp.splits prod.splits)

lemma read_and_print_polls:
  assumes "world_of (read_and_print w) = Some w'"
  shows "polls w w'"
proof (rule and_then_polls[OF assms[unfolded read_and_print_def]])
  fix w1 assume "world_of (readline w) = Some w1"
  then show "polls w w1" by (rule readline_polls)
next
  fix a w1 w2
  assume "world_of (let line = rstrip (decode_utf8_replace a) in
            if line \<noteq> [] then
              and_then (time_strftime w1) (\<lambda>timestamp w.
              and_then (py_print (timestamp @ str '' '' @ line) w) (\<lambda>_ w. stdout_flush w))
            else Ret () w1) = Some w2"
  then show "polls w1 w2"
    by (auto simp: Let_def split: if_splits
             elim!: and_then_polls time_strftime_polls py_print_polls stdout_flush_polls)
qed

lemma iteration_polls:
  assumes "world_of (iteration w) = Some w'"
  shows "polls w w'"
proof (rule and_then_polls[OF assms[unfolded iteration_def]])
  fix w1 assume "world_of (in_waiting w) = Some w1"
  then show "polls w w1" by (rule in_waiting_polls)
next
  fix n :: nat and w1 w2
  assume *: "world_of (if n > 0 then
            (case read_and_print w1 of
               Exc e w' \<Rightarrow>
                 if is_Exception e then py_print (str ''Error reading line: '' @ exn_str e) w'
                 else Exc e w'
             | r \<Rightarrow> r)
          else time_sleep w1) = Some w2"
  show "polls w1 w2"
  proof (cases "n > 0")
    case False
    with * show ?thesis by (auto dest: time_sleep_polls)
  next
    case True
    show ?thesis
    proof (cases "read_and_print w1")
      case (Ret u w3)
      with * True read_and_print_polls[of w1 w3] show ?thesis by simp
    next
      case (Exc e w3)
      with read_and_print_polls[of w1 w3] have "polls w1 w3" by simp
      with * True Exc show ?thesis
        by (auto split: if_splits dest!: py_print_polls intro: polls_trans)
    next
      case Stuck
      with * True show ?thesis by simp
    qed
  qed
qed

lemma monitor_loop_polls:
  "world_of (monitor_loop s w) = Some w' \<Longrightarrow> polls w w'"
proof (induction s w rule: monitor_loop.induct)
  case (1 s w)
  show ?case
  proof (cases "time_time w")
    case (Ret t w1)
    then have p1: "polls w w1" using time_time_polls[of w w1] by simp
    show ?thesis
    proof (cases "t - s < 20")
      case False
      with Ret "1.prems" p1 show ?thesis by (simp add: monitor_loop.simps[of s w])
    next
      case True
      show ?thesis
      proof (cases "iteration w1")
        case (Ret u w2)
        then have p2: "polls w1 w2" using iteration_polls[of w1 w2] by simp
        from "1.prems" \<open>time_time w = Ret t w1\<close> True Ret
        have "world_of (monitor_loop s w2) = Some w'"
          by (simp add: monitor_loop.simps[of s w])
        from "1.IH"[OF \<open>time_time w = Ret t w1\<close> True Ret this] p1 p2
        show ?thesis by (blast intro: polls_trans)
      next
        case (Exc e w2)
        then have "polls w1 w2" using iteration_polls[of w1 w2] by simp
        with "1.prems" \<open>time_time w = Ret t w1\<close> True Exc p1 show ?thesis
          by (auto simp: monitor_loop.simps[of s w] intro: polls_trans)
      next
        case Stuck
        with "1.prems" \<open>time_time w = Ret t w1\<close> True show ?thesis
          by (simp add: monitor_loop.simps[of s w])
      qed
    qed
  next
    case (Exc e w1)
    with "1.prems" time_time_polls[of w w1] show ?thesis
      by (simp add: monitor_loop.simps[of s w])
  next
    case Stuck
    with "1.prems" show ?thesis by (simp add: monitor_loop.simps[of s w])
  qed
qed

subsection \<open>The claims\<close>

text \<open>
  C3. When opening the port fails with a \<^verbatim>\<open>SerialException\<close> (pyserial raises it for a
  missing device, a refused permission and a busy port alike), the run prints one record,
  the message labelled \<^verbatim>\<open>Error opening serial port:\<close>, and ends: no banner line, no call
  of the loop (no clock reading, no poll, no read), status 0.
\<close>

theorem open_failure_prints_one_message:
  "main (init ((bs, Raised (SerialException m)) # (bs', Ok) # rest)) =
     Ret () \<lparr>script = rest, rx = [],
             out = [str ''Error opening serial port: '' @ m],
             calls = [CSerial, CPrint (str ''Error opening serial port: '' @ m)],
             ser = None\<rparr>"
  by (simp add: main_def handlers_def try_body_def init_def call_Raised call_Ok took_def)

text \<open>
  C1. The claim is that the connection, once opened, is closed on every exit path. In the
  run \<open>unplugged\<close> the port is opened, \<^verbatim>\<open>ser.in_waiting\<close> raises inside the loop, the
  last handler prints its message, and the script ends normally with the handle still open:
  only the normal path and the interrupt handler call \<^verbatim>\<open>ser.close()\<close>.
\<close>

theorem port_left_open_after_unexpected_error:
  "main (init unplugged) =
     Ret () \<lparr>script = [], rx = [],
             out = banner @ [str ''Unexpected error: [Errno 5] Input/output error''],
             calls = CSerial # map CPrint banner @ [CReset, CTime, CTime, CInWaiting,
                       CPrint (str ''Unexpected error: [Errno 5] Input/output error'')],
             ser = Some True\<rparr>"
proof -
  have s: "started (take 7 unplugged) 0" by (simp add: started_def unplugged_def)
  have u: "unplugged = take 7 unplugged @ drop 7 unplugged" by simp
  have "try_body (init unplugged) = try_body (init (take 7 unplugged @ drop 7 unplugged))"
    by simp
  also have "\<dots> = Exc (OtherException (str ''[Errno 5] Input/output error''))
     \<lparr>script = [([], Ok)], rx = [], out = banner,
      calls = CSerial # map CPrint banner @ [CReset, CTime, CTime, CInWaiting],
      ser = Some True\<rparr>"
    unfolding try_body_started[OF s]
    by (simp add: unplugged_def at_loop_def monitor_loop.simps iteration_def
          call_Ok call_Raised took_def)
  finally show ?thesis
    by (simp add: main_def handlers_def call_Ok took_def str_def)
qed

subsection \<open>The interrupt handler\<close>

lemma interrupt_handler:
  assumes "script w = (a, Ok) # (b, Ok) # rest"
  shows "handlers (Exc KeyboardInterrupt w) =
     (if ser w = Some True
      then Ret () (w\<lparr>script := rest, rx := rx w @ a @ b, out := out w @ [stopped],
                     calls := calls w @ [CPrint stopped, CClose (Some True)],
                     ser := Some False\<rparr>)
      else Ret () (w\<lparr>script := (b, Ok) # rest, out := out w @ [stopped],
                     calls := calls w @ [CPrint stopped]\<rparr>))"
  using assms by (auto simp: handlers_def call_Ok took_def stopped_def)

subsection \<open>Closing only what is open\<close>

lemma loop_call_close_on_open: "is_loop_call c \<Longrightarrow> close_on_open c"
  by (cases c) simp_all

lemma polls_closes_ok: "polls w w' \<Longrightarrow> closes_ok w \<Longrightarrow> closes_ok w'"
  by (auto simp: polls_def closes_ok_def list_all_iff loop_call_close_on_open)

lemma polls_ser: "polls w w' \<Longrightarrow> ser w' = ser w"
  by (simp add: polls_def)

lemma print_banner_polls:
  assumes "world_of (print_banner w) = Some w'"
  shows "polls w w'"
proof (rule and_then_polls[OF assms[unfolded print_banner_def]])
  fix w1 assume "world_of (py_print (str ''=== ESP32 Serial Monitor ==='') w) = Some w1"
  then show "polls w w1" by (rule py_print_polls)
next
  fix a w1 w2
  assume "world_of
     (and_then (py_print (str ''Port: '' @ PORT @ str '', Baud: '' @ decimal BAUDRATE) w1) (\<lambda>_ w.
      and_then (py_print (str ''Press Ctrl+C to exit'') w) (\<lambda>_ w.
      py_print (concat (replicate 50 (str ''=''))) w))) = Some w2"
  then show "polls w1 w2"
  proof (rule and_then_polls)
    fix w3
    assume "world_of (py_print (str ''Port: '' @ PORT @ str '', Baud: '' @ decimal BAUDRATE) w1)
              = Some w3"
    then show "polls w1 w3" by (rule py_print_polls)
  next
    fix a w3 w4
    assume "world_of (and_then (py_print (str ''Press Ctrl+C to exit'') w3) (\<lambda>_ w.
              py_print (concat (replicate 50 (str ''=''))) w)) = Some w4"
    then show "polls w3 w4"
    proof (rule and_then_polls)
      fix w5 assume "world_of (py_print (str ''Press Ctrl+C to exit'') w3) = Some w5"
      then show "polls w3 w5" by (rule py_print_polls)
    next
      fix a w5 w6
      assume "world_of (py_print (concat (replicate 50 (str ''=''))) w5) = Some w6"
      then show "polls w5 w6" by (rule py_print_polls)
    qed
  qed
qed

lemma read_and_display_polls:
  assumes "world_of (read_and_display w) = Some w'"
  shows "polls w w'"
  using assms unfolding read_and_display_def
  by (rule and_then_polls) (auto dest: time_time_polls monitor_loop_polls)

lemma serial_Serial_calls:
  "world_of (serial_Serial w) = Some w' \<Longrightarrow> calls w' = calls w @ [CSerial]"
  by (auto simp: serial_Serial_def next_event_def split: list.splits resp.splits)

lemma serial_Serial_opens: "serial_Serial w = Ret u w' \<Longrightarrow> ser w' = Some True"
  by (auto simp: serial_Serial_def next_event_def split: list.splits resp.splits)

lemma reset_input_buffer_calls:
  "world_of (reset_input_buffer w) = Some w' \<Longrightarrow>
   calls w' = calls w @ [CReset] \<and> ser w' = ser w"
  by (auto simp: reset_input_buffer_def next_event_def split: list.splits resp.splits)

lemma ser_close_calls:
  "world_of (ser_close w) = Some w' \<Longrightarrow> calls w' = calls w @ [CClose (ser w)]"
  by (auto simp: ser_close_def next_event_def split: list.splits resp.splits)

lemma closes_ok_snoc:
  "calls w' = calls w @ [c] \<Longrightarrow> closes_ok w' = (closes_ok w \<and> close_on_open c)"
  by (simp add: closes_ok_def)

lemma try_body_closes_ok:
  assumes run: "world_of (try_body w0) = Some w" and ok: "closes_ok w0"
  shows "closes_ok w"
  using run[unfolded try_body_def]
proof (cases rule: and_then_cases)
  case (1 e)
  from 1 have "world_of (serial_Serial w0) = Some w" by simp
  then have "calls w = calls w0 @ [CSerial]" by (rule serial_Serial_calls)
  with ok show ?thesis by (simp add: closes_ok_snoc)
next
  case opened: (2 u1 w1)
  from opened(1) have "world_of (serial_Serial w0) = Some w1" by simp
  then have "calls w1 = calls w0 @ [CSerial]" by (rule serial_Serial_calls)
  with ok have ok1: "closes_ok w1" by (simp add: closes_ok_snoc)
  from opened(1) have open1: "ser w1 = Some True" by (rule serial_Serial_opens)
  from opened(2) show ?thesis
  proof (cases rule: and_then_cases)
    case (1 e)
    from 1 have "world_of (print_banner w1) = Some w" by simp
    then have "polls w1 w" by (rule print_banner_polls)
    then show ?thesis using ok1 by (rule polls_closes_ok)
  next
    case bannered: (2 u2 w2)
    from bannered(1) have "world_of (print_banner w1) = Some w2" by simp
    then have p2: "polls w1 w2" by (rule print_banner_polls)
    then have ok2: "closes_ok w2" using ok1 by (rule polls_closes_ok)
    from bannered(2) show ?thesis
    proof (cases rule: and_then_cases)
      case (1 e)
      from 1 have "world_of (reset_input_buffer w2) = Some w" by simp
      then have "calls w = calls w2 @ [CReset]" by (simp add: reset_input_buffer_calls)
      with ok2 show ?thesis by (simp add: closes_ok_snoc)
    next
      case reset: (2 u3 w3)
      from reset(1) have r3: "world_of (reset_input_buffer w2) = Some w3" by simp
      from r3 have c3: "calls w3 = calls w2 @ [CReset]" by (simp add: reset_input_buffer_calls)
      from r3 have s3: "ser w3 = ser w2" by (simp add: reset_input_buffer_calls)
      from c3 ok2 have ok3: "closes_ok w3" by (simp add: closes_ok_snoc)
      from s3 p2 open1 have open3: "ser w3 = Some True" by (simp add: polls_def)
      from reset(2) show ?thesis
      proof (cases rule: and_then_cases)
        case (1 e)
        from 1 have "world_of (read_and_display w3) = Some w" by simp
        then have "polls w3 w" by (rule read_and_display_polls)
        then show ?thesis using ok3 by (rule polls_closes_ok)
      next
        case looped: (2 u4 w4)
        from looped(1) have "world_of (read_and_display w3) = Some w4" by simp
        then have p4: "polls w3 w4" by (rule read_and_display_polls)
        with open3 have open4: "ser w4 = Some True" by (simp add: polls_def)
        from p4 ok3 have ok4: "closes_ok w4" by (rule polls_closes_ok)
        from looped(2) show ?thesis
        proof (cases rule: and_then_cases)
          case (1 e)
          from 1 have "world_of (ser_close w4) = Some w" by simp
          then have "calls w = calls w4 @ [CClose (ser w4)]" by (rule ser_close_calls)
          with ok4 open4 show ?thesis by (simp add: closes_ok_snoc)
        next
          case closed: (2 u5 w5)
          from closed(1) have "world_of (ser_close w4) = Some w5" by simp
          then have "calls w5 = calls w4 @ [CClose (ser w4)]" by (rule ser_close_calls)
          with ok4 open4 have ok5: "closes_ok w5" by (simp add: closes_ok_snoc)
          from closed(2) have "polls w5 w" by (rule py_print_polls)
          then show ?thesis using ok5 by (rule polls_closes_ok)
        qed
      qed
    qed
  qed
qed

lemma handlers_closes_ok:
  assumes run: "world_of (handlers r) = Some w"
    and ok: "\<And>w0. world_of r = Some w0 \<Longrightarrow> closes_ok w0"
  shows "closes_ok w"
proof (cases r)
  case (Ret u w0)
  with run have "w = w0" by (simp add: handlers_def)
  with Ret ok[of w0] show ?thesis by simp
next
  case Stuck
  with run show ?thesis by (simp add: handlers_def)
next
  case (Exc e w0)
  with ok[of w0] have ok0: "closes_ok w0" by simp
  show ?thesis
  proof (cases e)
    case (SerialException m)
    with run Exc
    have "world_of (py_print (str ''Error opening serial port: '' @ exn_str e) w0) = Some w"
      by (simp add: handlers_def)
    then have "polls w0 w" by (rule py_print_polls)
    then show ?thesis using ok0 by (rule polls_closes_ok)
  next
    case (OtherException m)
    with run Exc
    have "world_of (py_print (str ''Unexpected error: '' @ exn_str e) w0) = Some w"
      by (simp add: handlers_def)
    then have "polls w0 w" by (rule py_print_polls)
    then show ?thesis using ok0 by (rule polls_closes_ok)
  next
    case KeyboardInterrupt
    with run Exc have
      "world_of (and_then (py_print (10 # str ''Monitoring stopped by user.'') w0) (\<lambda>_ w.
          if ser w \<noteq> None \<and> ser w = Some True then ser_close w else Ret () w)) = Some w"
      by (simp add: handlers_def)
    then show ?thesis
    proof (cases rule: and_then_cases)
      case (1 e')
      from 1 have "world_of (py_print (10 # str ''Monitoring stopped by user.'') w0) = Some w"
        by simp
      then have "polls w0 w" by (rule py_print_polls)
      then show ?thesis using ok0 by (rule polls_closes_ok)
    next
      case (2 u1 w1)
      from 2(1) have "world_of (py_print (10 # str ''Monitoring stopped by user.'') w0) = Some w1"
        by simp
      then have "polls w0 w1" by (rule py_print_polls)
      then have ok1: "closes_ok w1" using ok0 by (rule polls_closes_ok)
      show ?thesis
      proof (cases "ser w1 = Some True")
        case True
        with 2(2) have "world_of (ser_close w1) = Some w" by simp
        then have "calls w = calls w1 @ [CClose (ser w1)]" by (rule ser_close_calls)
        with ok1 True show ?thesis by (simp add: closes_ok_snoc)
      next
        case False
        with 2(2) have "w = w1" by simp
        with ok1 show ?thesis by simp
      qed
    qed
  qed
qed


text \<open>
  C10. In every run, whatever the environment answers, each \<^verbatim>\<open>ser.close()\<close> is made on a
  handle that is bound and open: the normal path closes the handle the loop left open, and
  the interrupt handler closes only behind its guard, so it makes no call when the
  interrupt came before the port was opened or after the normal path had closed it.
\<close>

theorem close_only_on_open_handle:
  assumes "world_of (main (init es)) = Some w"
  shows "closes_ok w"
proof -
  have "closes_ok (init es)" by (simp add: closes_ok_def init_def)
  then have "\<And>w0. world_of (try_body (init es)) = Some w0 \<Longrightarrow> closes_ok w0"
    by (rule try_body_closes_ok[rotated])
  with assms(1) show "closes_ok w"
    unfolding main_def by (rule handlers_closes_ok)
qed

theorem close_only_on_open_handle_witness:
  "world_of (main (init (quiet_start @ ctrl_c_after_close))) =
     Some \<lparr>script = [], rx = [], out = banner @ [stopped],
            calls = CSerial # map CPrint banner @
                      [CReset, CTime, CTime, CClose (Some True),
                       CPrint (10 # str ''Monitoring complete.''), CPrint stopped],
            ser = Some False\<rparr>
   \<and> closes_ok \<lparr>script = [], rx = [], out = banner @ [stopped],
            calls = CSerial # map CPrint banner @
                      [CReset, CTime, CTime, CClose (Some True),
                       CPrint (10 # str ''Monitoring complete.''), CPrint stopped],
            ser = Some False\<rparr>"
proof -
  have s: "started quiet_start 0" by (simp add: started_def quiet_start_def)
  have "main (init (quiet_start @ ctrl_c_after_close)) =
     Ret () \<lparr>script = [], rx = [], out = banner @ [stopped],
            calls = CSerial # map CPrint banner @
                      [CReset, CTime, CTime, CClose (Some True),
                       CPrint (10 # str ''Monitoring complete.''), CPrint stopped],
            ser = Some False\<rparr>"
    unfolding main_def try_body_started[OF s]
    by (simp add: monitor_loop.simps at_loop_def ctrl_c_after_close_def quiet_start_def
          handlers_def stopped_def call_Ok call_Raised took_def)
  then have r: "world_of (main (init (quiet_start @ ctrl_c_after_close))) =
     Some \<lparr>script = [], rx = [], out = banner @ [stopped],
            calls = CSerial # map CPrint banner @
                      [CReset, CTime, CTime, CClose (Some True),
                       CPrint (10 # str ''Monitoring complete.''), CPrint stopped],
            ser = Some False\<rparr>"
    by simp
  from r close_only_on_open_handle[OF r] show ?thesis by simp
qed

subsection \<open>One turn of the loop\<close>

lemma monitor_loop_step:
  assumes "time_time w = Ret t w1" and "t - t0 < 20" and "iteration w1 = Ret u w2"
  shows "monitor_loop t0 w = monitor_loop t0 w2"
  using assms by (subst monitor_loop.simps) simp

lemma monitor_loop_exit:
  assumes "time_time w = Ret t w1" and "\<not> t - t0 < 20"
  shows "monitor_loop t0 w = Ret () w1"
  using assms by (subst monitor_loop.simps) simp

lemma iteration_failed_read:
  assumes "in_waiting w1 = Ret n w2" and "0 < n"
    and "read_and_print w2 = Exc e w3" and "is_Exception e"
    and "script w3 = (a, Ok) # rest"
  shows "iteration w1 =
           Ret () ((took (CPrint (str ''Error reading line: '' @ exn_str e)) a rest w3)
                     \<lparr>out := out w3 @ [str ''Error reading line: '' @ exn_str e]\<rparr>)"
  using assms by (simp add: iteration_def py_print_Ok)

text \<open>
  C5. In a turn of the loop (the deadline not yet reached, bytes waiting), when reading,
  decoding, stamping or printing the line raises an \<^verbatim>\<open>Exception\<close> (anything but an
  interrupt), the inner handler prints \<^verbatim>\<open>Error reading line:\<close> with the error's text and
  the loop goes on with its next check of the clock, exactly as after a turn without
  error. The handler's own \<^verbatim>\<open>print\<close> is taken to return.
\<close>

theorem line_failure_is_reported_and_loop_goes_on:
  assumes "time_time w = Ret t w1" and "t - t0 < 20"
    and "in_waiting w1 = Ret n w2" and "0 < n"
    and "read_and_print w2 = Exc e w3" and "is_Exception e"
    and "script w3 = (a, Ok) # rest"
  shows "monitor_loop t0 w =
           monitor_loop t0
             ((took (CPrint (str ''Error reading line: '' @ exn_str e)) a rest w3)
                \<lparr>out := out w3 @ [str ''Error reading line: '' @ exn_str e]\<rparr>)"
  using assms(1,2) iteration_failed_read[OF assms(3-7)] by (rule monitor_loop_step)

theorem line_failure_is_reported_and_loop_goes_on_witness:
  "monitor_loop 0 (at_loop quiet_start read_fails) =
     monitor_loop 0
       \<lparr>script = [([], Clock 20)], rx = [0x68, 0x69],
        out = banner @ [str ''Error reading line: read failed''],
        calls = CSerial # map CPrint banner @
                  [CReset, CTime, CTime, CInWaiting, CReadline,
                   CPrint (str ''Error reading line: read failed'')],
        ser = Some True\<rparr>
   \<and> monitor_loop 0 (at_loop quiet_start read_fails) =
     Ret ()
       \<lparr>script = [], rx = [0x68, 0x69],
        out = banner @ [str ''Error reading line: read failed''],
        calls = CSerial # map CPrint banner @
                  [CReset, CTime, CTime, CInWaiting, CReadline,
                   CPrint (str ''Error reading line: read failed''), CTime],
        ser = Some True\<rparr>"
proof -
  let ?w = "at_loop quiet_start read_fails"
  let ?w1 = "took CTime [] (tl read_fails) ?w"
  let ?w2 = "took CInWaiting [0x68, 0x69] (drop 2 read_fails) ?w1"
  let ?w3 = "took CReadline [] (drop 3 read_fails) ?w2"
  have 1: "time_time ?w = Ret 1 ?w1"
    by (simp add: read_fails_def at_loop_def time_time_Clock)
  have 2: "in_waiting ?w1 = Ret 2 ?w2"
    by (simp add: read_fails_def at_loop_def in_waiting_Ok quiet_start_def)
  have 3: "read_and_print ?w2 = Exc (SerialException (str ''read failed'')) ?w3"
    by (simp add: read_and_print_def read_fails_def call_Raised)
  have 4: "script ?w3 = ([], Ok) # [([], Clock 20)]"
    by (simp add: read_fails_def)
  have step: "monitor_loop 0 ?w =
     monitor_loop 0
       \<lparr>script = [([], Clock 20)], rx = [0x68, 0x69],
        out = banner @ [str ''Error reading line: read failed''],
        calls = CSerial # map CPrint banner @
                  [CReset, CTime, CTime, CInWaiting, CReadline,
                   CPrint (str ''Error reading line: read failed'')],
        ser = Some True\<rparr>"
    using line_failure_is_reported_and_loop_goes_on[OF 1 _ 2 _ 3 _ 4, of 0]
    by (simp add: took_def at_loop_def quiet_start_def str_def)
  have "monitor_loop 0
       \<lparr>script = [([], Clock 20)], rx = [0x68, 0x69],
        out = banner @ [str ''Error reading line: read failed''],
        calls = CSerial # map CPrint banner @
                  [CReset, CTime, CTime, CInWaiting, CReadline,
                   CPrint (str ''Error reading line: read failed'')],
        ser = Some True\<rparr> = Ret ()
       \<lparr>script = [], rx = [0x68, 0x69],
        out = banner @ [str ''Error reading line: read failed''],
        calls = CSerial # map CPrint banner @
                  [CReset, CTime, CTime, CInWaiting, CReadline,
                   CPrint (str ''Error reading line: read failed''), CTime],
        ser = Some True\<rparr>"
    by (subst monitor_loop.simps) (simp add: time_time_Clock took_def)
  with step show ?thesis by simp
qed

subsection \<open>Timestamps\<close>

lemma read_stamp_Cons:
  "read_stamp (91 # h1 # h2 # 58 # m1 # m2 # 58 # s1 # s2 # 93 # 32 # rest) =
     (if list_all is_digit [h1, h2, m1, m2, s1, s2]
      then Some ((10 * (h1 - 48) + (h2 - 48), 10 * (m1 - 48) + (m2 - 48),
                  10 * (s1 - 48) + (s2 - 48)), rest)
      else None)"
  by (simp add: read_stamp_def)

lemma hms_Cons:
  "hms s @ str '' '' @ l =
     91 # (48 + s div 3600 mod 24 div 10) # (48 + s div 3600 mod 24 mod 10) # 58 #
     (48 + s div 60 mod 60 div 10) # (48 + s div 60 mod 60 mod 10) # 58 #
     (48 + s mod 60 div 10) # (48 + s mod 60 mod 10) # 93 # 32 # l"
  by (simp add: hms_def two_digits_def str_def)

lemma two_digits_digit:
  assumes "n < 100"
  shows "is_digit (48 + n div 10)" and "is_digit (48 + n mod 10)"
    and "10 * (48 + n div 10 - 48) + (48 + n mod 10 - 48) = n"
proof -
  from assms have "n div 10 \<le> 9" by simp
  then show "is_digit (48 + n div 10)" by (simp add: is_digit_def)
  have "n mod 10 < 10" by simp
  then show "is_digit (48 + n mod 10)" by (simp add: is_digit_def)
  show "10 * (48 + n div 10 - 48) + (48 + n mod 10 - 48) = n" by simp
qed

lemma read_stamp_hms:
  "read_stamp (hms s @ str '' '' @ l) = Some ((s div 3600 mod 24, s div 60 mod 60, s mod 60), l)"
proof -
  have h: "s div 3600 mod 24 < 100"
    by (rule less_trans[OF mod_less_divisor]) simp_all
  have m: "s div 60 mod 60 < 100"
    by (rule less_trans[OF mod_less_divisor]) simp_all
  have c: "s mod 60 < 100"
    by (rule less_trans[OF mod_less_divisor]) simp_all
  show ?thesis
    unfolding hms_Cons read_stamp_Cons
    by (simp add: two_digits_digit[OF h] two_digits_digit[OF m] two_digits_digit[OF c]
          del: add_diff_cancel_left')
qed

subsection \<open>Stripping keeps the placeholders\<close>


lemma count_list_append: "count_list (xs @ ys) c = count_list xs c + count_list ys c"
  by (induction xs) simp_all







subsection \<open>A turn that reads a line\<close>

lemma read_and_print_line:
  assumes "readline w2 = Ret raw w3" and "rstrip (decode_utf8_replace raw) \<noteq> []"
    and "ser w3 = Some True"
    and "script w3 = (a, LocalTime s) # (b, Ok) # (c, Ok) # rest"
  shows "read_and_print w2 =
     Ret () (printed_line w3 (hms s @ str '' '' @ rstrip (decode_utf8_replace raw))
               (a @ b @ c) rest)"
  using assms
  by (simp add: read_and_print_def Let_def time_strftime_LocalTime py_print_Ok stdout_flush_Ok
        took_def printed_line_def)

lemma read_and_print_empty:
  assumes "readline w2 = Ret raw w3" and "rstrip (decode_utf8_replace raw) = []"
  shows "read_and_print w2 = Ret () w3"
  using assms by (simp add: read_and_print_def)

lemma iteration_reads:
  assumes "in_waiting w1 = Ret n w2" and "0 < n" and "read_and_print w2 = Ret u w3"
  shows "iteration w1 = Ret u w3"
  using assms by (simp add: iteration_def)

lemma loop_prints_line:
  assumes "time_time w = Ret t w1" and "t - t0 < 20"
    and "in_waiting w1 = Ret n w2" and "0 < n"
    and "readline w2 = Ret raw w3" and "rstrip (decode_utf8_replace raw) \<noteq> []"
    and "ser w3 = Some True"
    and "script w3 = (a, LocalTime s) # (b, Ok) # (c, Ok) # rest"
  shows "monitor_loop t0 w =
     monitor_loop t0 (printed_line w3 (hms s @ str '' '' @ rstrip (decode_utf8_replace raw))
                        (a @ b @ c) rest)"
  using assms(1,2) iteration_reads[OF assms(3,4) read_and_print_line[OF assms(5-8)]]
  by (rule monitor_loop_step)

lemma loop_skips_empty_line:
  assumes "time_time w = Ret t w1" and "t - t0 < 20"
    and "in_waiting w1 = Ret n w2" and "0 < n"
    and "readline w2 = Ret raw w3" and "rstrip (decode_utf8_replace raw) = []"
  shows "monitor_loop t0 w = monitor_loop t0 w3"
  using assms(1,2) iteration_reads[OF assms(3,4) read_and_print_empty[OF assms(5,6)]]
  by (rule monitor_loop_step)

lemma out_unchanged:
  "time_time w = Ret t w1 \<Longrightarrow> out w1 = out w"
  "in_waiting w = Ret n w1 \<Longrightarrow> out w1 = out w"
  "readline w = Ret raw w1 \<Longrightarrow> out w1 = out w"
  by (auto simp: time_time_def in_waiting_def readline_def next_event_def
           split: list.splits resp.splits prod.splits)

lemma hello_line:
  "rstrip (decode_utf8_replace [0x68, 0x65, 0x6C, 0x6C, 0x6F, 0x0D, 0x0A]) = str ''hello''"
  by (simp add: rstrip_def decode_utf8_replace_def is_space_def str_def)

lemma blank_line: "rstrip (decode_utf8_replace [0x0D, 0x0A]) = []"
  by (simp add: rstrip_def decode_utf8_replace_def is_space_def)



text \<open>
  C2. In a turn of the loop in which bytes are waiting and a line is read: when the line is
  empty after decoding and stripping, nothing is printed and the loop goes on; otherwise
  exactly one record is added to the output, the timestamp, one space and the stripped
  line, and the record reads back as \<^verbatim>\<open>[HH:MM:SS]\<close> with the hours, minutes and whole
  seconds of the local time, followed by the line. The calls that stamp, print and flush are
  taken to return.
\<close>

theorem each_line_one_stamped_record:
  assumes "time_time w = Ret t w1" and "t - t0 < 20"
    and "in_waiting w1 = Ret n w2" and "0 < n"
    and "readline w2 = Ret raw w3" and "ser w3 = Some True"
  shows "out w3 = out w
    \<and> (rstrip (decode_utf8_replace raw) = [] \<longrightarrow> monitor_loop t0 w = monitor_loop t0 w3)
    \<and> (rstrip (decode_utf8_replace raw) \<noteq> []
         \<and> script w3 = (a, LocalTime s) # (b, Ok) # (c, Ok) # rest \<longrightarrow>
         monitor_loop t0 w =
           monitor_loop t0
             (printed_line w3 (hms s @ str '' '' @ rstrip (decode_utf8_replace raw))
                (a @ b @ c) rest)
         \<and> read_stamp (hms s @ str '' '' @ rstrip (decode_utf8_replace raw)) =
             Some ((s div 3600 mod 24, s div 60 mod 60, s mod 60),
                   rstrip (decode_utf8_replace raw)))"
proof (intro conjI impI)
  from assms(1,3,5) show "out w3 = out w" by (simp add: out_unchanged)
next
  assume "rstrip (decode_utf8_replace raw) = []"
  with assms(1-5) show "monitor_loop t0 w = monitor_loop t0 w3"
    by (rule loop_skips_empty_line)
next
  assume *: "rstrip (decode_utf8_replace raw) \<noteq> []
    \<and> script w3 = (a, LocalTime s) # (b, Ok) # (c, Ok) # rest"
  then have 1: "rstrip (decode_utf8_replace raw) \<noteq> []"
    and 2: "script w3 = (a, LocalTime s) # (b, Ok) # (c, Ok) # rest" by simp_all
  from assms(1-5) 1 assms(6) 2
  show "monitor_loop t0 w =
           monitor_loop t0
             (printed_line w3 (hms s @ str '' '' @ rstrip (decode_utf8_replace raw))
                (a @ b @ c) rest)"
    by (rule loop_prints_line)
next
  show "read_stamp (hms s @ str '' '' @ rstrip (decode_utf8_replace raw)) =
             Some ((s div 3600 mod 24, s div 60 mod 60, s mod 60),
                   rstrip (decode_utf8_replace raw))"
    by (rule read_stamp_hms)
qed

theorem each_line_one_stamped_record_witness:
  "monitor_loop 0 (at_loop quiet_start two_lines) =
     Ret () \<lparr>script = [], rx = [], out = banner @ [str ''[12:34:56] hello''],
             calls = CSerial # map CPrint banner @
               [CReset, CTime, CTime, CInWaiting, CReadline, CStrftime,
                CPrint (str ''[12:34:56] hello''), CFlush,
                CTime, CInWaiting, CReadline, CTime],
             ser = Some True\<rparr>
   \<and> read_stamp (str ''[12:34:56] hello'') = Some ((12, 34, 56), str ''hello'')"
proof -
  let ?hello = "[0x68, 0x65, 0x6C, 0x6C, 0x6F, 0x0D, 0x0A] :: byte list"
  let ?w = "at_loop quiet_start two_lines"
  let ?w1 = "took CTime [] (drop 1 two_lines) ?w"
  let ?w2 = "took CInWaiting ?hello (drop 2 two_lines) ?w1"
  let ?w3 = "(took CReadline [] (drop 3 two_lines) ?w2)\<lparr>rx := []\<rparr>"
  have stamp: "hms 45296 @ str '' '' @ str ''hello'' = str ''[12:34:56] hello''"
    by (simp add: hms_def two_digits_def str_def)
  have ne: "str ''hello'' \<noteq> []" by (simp add: str_def)
  have 1: "time_time ?w = Ret 1 ?w1"
    by (simp add: two_lines_def time_time_Clock)
  have 2: "in_waiting ?w1 = Ret 7 ?w2"
    by (simp add: two_lines_def in_waiting_Ok at_loop_def quiet_start_def)
  have 3: "readline ?w2 = Ret ?hello ?w3"
    by (simp add: two_lines_def readline_Ok at_loop_def quiet_start_def)
  have 4: "script ?w3 = ([], LocalTime 45296) # ([], Ok) # ([], Ok) # drop 6 two_lines"
    by (simp add: two_lines_def)
  let ?v = "printed_line ?w3 (str ''[12:34:56] hello'') [] (drop 6 two_lines)"
  from each_line_one_stamped_record[OF 1 _ 2 _ 3, of 0 "[]" 45296 "[]" "[]" "drop 6 two_lines"] 4
  have first: "monitor_loop 0 ?w = monitor_loop 0 ?v"
    and parsed: "read_stamp (str ''[12:34:56] hello'') = Some ((12, 34, 56), str ''hello'')"
    by (simp_all add: hello_line stamp ne)
  let ?v1 = "took CTime [0x0D, 0x0A] (drop 7 two_lines) ?v"
  let ?v2 = "took CInWaiting [] (drop 8 two_lines) ?v1"
  let ?v3 = "(took CReadline [] (drop 9 two_lines) ?v2)\<lparr>rx := []\<rparr>"
  have 5: "time_time ?v = Ret 2 ?v1"
    by (simp add: two_lines_def time_time_Clock printed_line_def)
  have 6: "in_waiting ?v1 = Ret 2 ?v2"
    by (simp add: two_lines_def in_waiting_Ok printed_line_def)
  have 7: "readline ?v2 = Ret [0x0D, 0x0A] ?v3"
    by (simp add: two_lines_def readline_Ok printed_line_def)
  from each_line_one_stamped_record[OF 5 _ 6 _ 7, of 0]
  have second: "monitor_loop 0 ?v = monitor_loop 0 ?v3"
    by (simp add: blank_line printed_line_def)
  have "time_time ?v3 = Ret 20 (took CTime [] [] ?v3)"
    by (simp add: two_lines_def time_time_Clock)
  then have "monitor_loop 0 ?v3 = Ret () (took CTime [] [] ?v3)"
    by (rule monitor_loop_exit) simp
  with first second have "monitor_loop 0 ?w = Ret () (took CTime [] [] ?v3)" by simp
  also have "took CTime [] [] ?v3 =
     \<lparr>script = [], rx = [], out = banner @ [str ''[12:34:56] hello''],
             calls = CSerial # map CPrint banner @
               [CReset, CTime, CTime, CInWaiting, CReadline, CStrftime,
                CPrint (str ''[12:34:56] hello''), CFlush,
                CTime, CInWaiting, CReadline, CTime],
             ser = Some True\<rparr>"
    by (simp add: took_def printed_line_def at_loop_def)
  finally show ?thesis using parsed by simp
qed



subsection \<open>What the handlers catch\<close>

lemma handlers_Ret [simp]: "handlers (Ret u w) = Ret u w"
  by (simp add: handlers_def)

lemma handlers_one_message:
  assumes "script w = (a, Ok) # (b, Ok) # rest"
  shows "\<exists>m w'. handlers (Exc e w) = Ret () w' \<and> out w' = out w @ [m]"
proof (cases e)
  case (SerialException x)
  with assms show ?thesis by (simp add: handlers_def py_print_Ok)
next
  case KeyboardInterrupt
  with assms show ?thesis by (simp add: interrupt_handler)
next
  case (OtherException x)
  with assms show ?thesis by (simp add: handlers_def py_print_Ok)
qed

text \<open>
  C9. As stated the claim fails: the handlers are not themselves protected, so an
  exception raised inside a handler leaves the script. In the run below the user interrupts
  the idle loop and interrupts again while the interrupt handler prints its message: the
  second \<^verbatim>\<open>KeyboardInterrupt\<close> is unhandled, no message was printed, and the process ends
  with a traceback and not with status 0.
\<close>

theorem second_interrupt_escapes:
  "main (init (quiet_start @ second_ctrl_c)) =
     Exc KeyboardInterrupt
       \<lparr>script = [], rx = [], out = banner,
        calls = CSerial # map CPrint banner @
                  [CReset, CTime, CTime, CInWaiting, CSleep, CPrint stopped],
        ser = Some True\<rparr>
   \<and> ending_of (main (init (quiet_start @ second_ctrl_c))) \<noteq> Some Exit0"
proof -
  have s: "started quiet_start 0" by (simp add: started_def quiet_start_def)
  have "main (init (quiet_start @ second_ctrl_c)) =
     Exc KeyboardInterrupt
       \<lparr>script = [], rx = [], out = banner,
        calls = CSerial # map CPrint banner @
                  [CReset, CTime, CTime, CInWaiting, CSleep, CPrint stopped],
        ser = Some True\<rparr>"
    unfolding main_def try_body_started[OF s]
    by (simp add: monitor_loop.simps iteration_def at_loop_def second_ctrl_c_def quiet_start_def
          handlers_def stopped_def call_Ok call_Raised took_def)
  then show ?thesis by simp
qed

text \<open>
  C9, amended. When the calls the handlers make return: every exception that leaves the
  body of the outer \<^verbatim>\<open>try\<close> (open failure, interrupt, unexpected error) is answered by
  exactly one printed message and the script ends with status 0; every \<^verbatim>\<open>Exception\<close> of
  the inner \<^verbatim>\<open>try\<close> is answered by exactly one printed message and the turn returns; and
  a body that completes ends the script with status 0.
\<close>

theorem failures_in_body_end_with_one_message:
  "(try_body w0 = Exc e w \<and> script w = (a, Ok) # (b, Ok) # rest \<longrightarrow>
      (\<exists>m w'. main w0 = Ret () w' \<and> out w' = out w @ [m])
      \<and> ending_of (main w0) = Some Exit0)
   \<and> (in_waiting w1 = Ret n w2 \<and> 0 < n \<and> read_and_print w2 = Exc e' w3 \<and> is_Exception e'
        \<and> script w3 = (a', Ok) # rest' \<longrightarrow>
      (\<exists>m w'. iteration w1 = Ret () w' \<and> out w' = out w3 @ [m]))
   \<and> (try_body w0 = Ret u w \<longrightarrow> main w0 = Ret u w \<and> ending_of (main w0) = Some Exit0)"
proof (intro conjI impI)
  assume *: "try_body w0 = Exc e w \<and> script w = (a, Ok) # (b, Ok) # rest"
  then have m: "main w0 = handlers (Exc e w)" by (simp add: main_def)
  from * have s: "script w = (a, Ok) # (b, Ok) # rest" by simp
  from handlers_one_message[OF s, of e]
  show "\<exists>m w'. main w0 = Ret () w' \<and> out w' = out w @ [m]" unfolding m .
  from handlers_one_message[OF s, of e]
  show "ending_of (main w0) = Some Exit0" unfolding m by auto
next
  assume "in_waiting w1 = Ret n w2 \<and> 0 < n \<and> read_and_print w2 = Exc e' w3 \<and> is_Exception e'
        \<and> script w3 = (a', Ok) # rest'"
  then have 1: "in_waiting w1 = Ret n w2" and 2: "0 < n"
    and 3: "read_and_print w2 = Exc e' w3" and 4: "is_Exception e'"
    and 5: "script w3 = (a', Ok) # rest'" by simp_all
  from 1 2 3 4 5 have "iteration w1 =
     Ret () ((took (CPrint (str ''Error reading line: '' @ exn_str e')) a' rest' w3)
               \<lparr>out := out w3 @ [str ''Error reading line: '' @ exn_str e']\<rparr>)"
    by (rule iteration_failed_read)
  then show "\<exists>m w'. iteration w1 = Ret () w' \<and> out w' = out w3 @ [m]" by simp
next
  assume "try_body w0 = Ret u w"
  then show "main w0 = Ret u w" by (simp add: main_def)
next
  assume "try_body w0 = Ret u w"
  then show "ending_of (main w0) = Some Exit0" by (simp add: main_def)
qed

theorem failures_in_body_end_with_one_message_witness:
  "(\<exists>m w'. main (init open_refused) = Ret () w' \<and> out w' = [] @ [m])
   \<and> ending_of (main (init open_refused)) = Some Exit0
   \<and> (\<exists>m w'. iteration (took CTime [] (tl read_fails) (at_loop quiet_start read_fails))
                  = Ret () w' \<and> out w' = banner @ [m])
   \<and> ending_of (main (init (quiet_start @ nothing_received))) = Some Exit0"
proof -
  let ?w = "took CSerial [] [([], Ok), ([], Ok)] (init open_refused)"
  have b: "try_body (init open_refused) = Exc (SerialException (str ''could not open port'')) ?w
           \<and> script ?w = ([], Ok) # ([], Ok) # []"
    by (simp add: try_body_def open_refused_def init_def call_Raised)
  let ?w1 = "took CTime [] (tl read_fails) (at_loop quiet_start read_fails)"
  let ?w2 = "took CInWaiting [0x68, 0x69] (drop 2 read_fails) ?w1"
  let ?w3 = "took CReadline [] (drop 3 read_fails) ?w2"
  have c: "in_waiting ?w1 = Ret 2 ?w2 \<and> 0 < (2::nat)
      \<and> read_and_print ?w2 = Exc (SerialException (str ''read failed'')) ?w3
      \<and> is_Exception (SerialException (str ''read failed''))
      \<and> script ?w3 = ([], Ok) # [([], Clock 20)]"
    by (simp add: read_fails_def at_loop_def in_waiting_Ok quiet_start_def read_and_print_def
          call_Raised)
  have s: "started quiet_start 0" by (simp add: started_def quiet_start_def)
  let ?v = "\<lparr>script = [], rx = [],
             out = banner @ [10 # str ''Monitoring complete.''],
             calls = CSerial # map CPrint banner @
                       [CReset, CTime, CTime, CClose (Some True),
                        CPrint (10 # str ''Monitoring complete.'')],
             ser = Some False\<rparr>"
  have a: "try_body (init (quiet_start @ nothing_received)) = Ret () ?v"
    unfolding try_body_started[OF s]
    by (simp add: monitor_loop.simps at_loop_def nothing_received_def quiet_start_def
          call_Ok took_def)
  from failures_in_body_end_with_one_message
         [of "init open_refused" "SerialException (str ''could not open port'')" ?w
             "[]" "[]" "[]" ?w1 2 ?w2 "SerialException (str ''read failed'')" ?w3
             "[]" "[([], Clock 20)]" "()"]
       failures_in_body_end_with_one_message
         [of "init (quiet_start @ nothing_received)" _ ?v _ _ _ _ _ _ _ _ _ _ "()"]
       a b c
  show ?thesis by (simp add: init_def)
qed

subsection \<open>The loop without input\<close>

lemma idle_turn:
  assumes "rx w = []" and "script w = ([], Clock t) # ([], Ok) # ([], Ok) # es"
    and "t - t0 < 20"
  shows "monitor_loop t0 w =
           monitor_loop t0 (w\<lparr>script := es, calls := calls w @ [CTime, CInWaiting, CSleep]\<rparr>)"
proof -
  have 1: "time_time w = Ret t (took CTime [] (([], Ok) # ([], Ok) # es) w)"
    using assms(2) by (rule time_time_Clock)
  have 2: "iteration (took CTime [] (([], Ok) # ([], Ok) # es) w) =
             Ret () (w\<lparr>script := es, calls := calls w @ [CTime, CInWaiting, CSleep]\<rparr>)"
    using assms(1) by (simp add: iteration_def in_waiting_Ok time_sleep_Ok took_def)
  from 1 assms(3) 2 show ?thesis by (rule monitor_loop_step)
qed

lemma idle_exit:
  assumes "script w = ([], Clock t) # es" and "\<not> t - t0 < 20" and "rx w = []"
  shows "monitor_loop t0 w = Ret () (w\<lparr>script := es, calls := calls w @ [CTime]\<rparr>)"
proof -
  have "time_time w = Ret t (took CTime [] es w)"
    using assms(1) by (rule time_time_Clock)
  then have "monitor_loop t0 w = Ret () (took CTime [] es w)"
    using assms(2) by (rule monitor_loop_exit)
  then show ?thesis using assms(3) by (simp add: took_def)
qed

lemma idle_loop:
  assumes "rx w = []" and "script w = idle_script ts" and "\<exists>t\<in>set ts. 20 \<le> t - t0"
  shows "\<exists>k<length ts. monitor_loop t0 w = Ret () (idled w k ts)
           \<and> 20 \<le> ts ! k - t0 \<and> (\<forall>j<k. ts ! j - t0 < 20)"
  using assms
proof (induction ts arbitrary: w)
  case Nil
  then show ?case by simp
next
  case (Cons t ts)
  from Cons.prems(2)
  have scr: "script w = ([], Clock t) # ([], Ok) # ([], Ok) # idle_script ts" by simp
  show ?case
  proof (cases "t - t0 < 20")
    case False
    from scr False Cons.prems(1)
    have "monitor_loop t0 w =
            Ret () (w\<lparr>script := ([], Ok) # ([], Ok) # idle_script ts,
                      calls := calls w @ [CTime]\<rparr>)"
      by (rule idle_exit)
    then have "monitor_loop t0 w = Ret () (idled w 0 (t # ts))"
      by (simp add: idled_def)
    moreover from False have "20 \<le> (t # ts) ! 0 - t0" by simp
    ultimately show ?thesis by (intro exI[of _ 0]) simp
  next
    case True
    let ?w = "w\<lparr>script := idle_script ts, calls := calls w @ [CTime, CInWaiting, CSleep]\<rparr>"
    from Cons.prems(1) scr True have turn: "monitor_loop t0 w = monitor_loop t0 ?w"
      by (rule idle_turn)
    from Cons.prems(3) True have later: "\<exists>t\<in>set ts. 20 \<le> t - t0" by auto
    have r: "rx ?w = []" using Cons.prems(1) by simp
    have s: "script ?w = idle_script ts" by simp
    from r s later
    have "\<exists>k<length ts. monitor_loop t0 ?w = Ret () (idled ?w k ts)
           \<and> 20 \<le> ts ! k - t0 \<and> (\<forall>j<k. ts ! j - t0 < 20)"
      by (rule Cons.IH)
    then obtain k where k: "k < length ts"
      and run: "monitor_loop t0 ?w = Ret () (idled ?w k ts)"
      and ge: "20 \<le> ts ! k - t0"
      and before: "\<forall>j<k. ts ! j - t0 < 20" by blast
    have "3 * Suc k + 1 = Suc (Suc (Suc (3 * k + 1)))" by simp
    then have "drop (3 * Suc k + 1) (([], Clock t) # ([], Ok) # ([], Ok) # idle_script ts)
                 = drop (3 * k + 1) (idle_script ts)"
      by (simp only: drop_Suc_Cons)
    then have "idled ?w k ts = idled w (Suc k) (t # ts)"
      by (simp add: idled_def del: drop_Suc_Cons)
    with turn run have "monitor_loop t0 w = Ret () (idled w (Suc k) (t # ts))" by simp
    moreover have "\<forall>j<Suc k. (t # ts) ! j - t0 < 20"
      using before True by (auto simp: less_Suc_eq_0_disj)
    ultimately show ?thesis
      using k ge by (intro exI[of _ "Suc k"]) simp
  qed
qed

text \<open>
  C7. As stated the claim fails: nothing in the script bounds the time a turn of the loop
  takes, and without input no read is made, so the read timeout of one second plays no
  part. In the run below nothing arrives; the loop checks the clock at 0 and at 19 seconds,
  the next check comes 5 seconds later (the process was held up), and the loop ends at 24
  seconds, not within 21.
\<close>

theorem slow_turn_ends_late:
  "monitor_loop 0 (at_loop quiet_start (idle_script slow_turn)) =
     Ret () (idled (at_loop quiet_start (idle_script slow_turn)) 2 slow_turn)
   \<and> slow_turn ! 2 - 0 = 24 \<and> \<not> slow_turn ! 2 - 0 < 20 + 1"
proof -
  let ?w = "at_loop quiet_start (idle_script slow_turn)"
  let ?w1 = "?w\<lparr>script := idle_script [19, 24],
                 calls := calls ?w @ [CTime, CInWaiting, CSleep]\<rparr>"
  let ?w2 = "?w1\<lparr>script := idle_script [24],
                  calls := calls ?w1 @ [CTime, CInWaiting, CSleep]\<rparr>"
  have r: "rx ?w = []" by (simp add: at_loop_def quiet_start_def)
  have s0: "script ?w = ([], Clock 0) # ([], Ok) # ([], Ok) # idle_script [19, 24]"
    by (simp add: slow_turn_def)
  have "monitor_loop 0 ?w = monitor_loop 0 ?w1"
    using r s0 by (rule idle_turn) simp
  also have "\<dots> = monitor_loop 0 ?w2"
  proof -
    have r1: "rx ?w1 = []" using r by simp
    have s1: "script ?w1 = ([], Clock 19) # ([], Ok) # ([], Ok) # idle_script [24]" by simp
    from r1 s1 show ?thesis by (rule idle_turn) simp
  qed
  also have "\<dots> = Ret () (?w2\<lparr>script := [([], Ok), ([], Ok)], calls := calls ?w2 @ [CTime]\<rparr>)"
  proof -
    have r2: "rx ?w2 = []" using r by simp
    have s2: "script ?w2 = ([], Clock 24) # [([], Ok), ([], Ok)]" by simp
    have "\<not> (24::real) - 0 < 20" by simp
    with s2 show ?thesis using r2 by (rule idle_exit)
  qed
  also have "?w2\<lparr>script := [([], Ok), ([], Ok)], calls := calls ?w2 @ [CTime]\<rparr>
               = idled ?w 2 slow_turn"
    by (simp add: idled_def slow_turn_def numeral_2_eq_2)
  finally show ?thesis by (simp add: slow_turn_def)
qed

text \<open>
  C7, amended. Without input and without failing calls, once the clock reaches the
  deadline the loop returns: it goes on at every reading with strictly less than 20 seconds
  elapsed and ends at the first reading with 20 seconds or more. It overshoots the deadline
  by less than the time its last turn took, from the reading before to this one. Nothing
  is printed meanwhile.
\<close>

theorem idle_loop_ends_at_first_reading_past_the_deadline:
  assumes "rx w = []" and "script w = idle_script ts" and "\<exists>t\<in>set ts. 20 \<le> t - t0"
  shows "\<exists>k<length ts. monitor_loop t0 w = Ret () (idled w k ts)
           \<and> 20 \<le> ts ! k - t0 \<and> (\<forall>j<k. ts ! j - t0 < 20)
           \<and> ts ! k - t0 < 20 + (ts ! k - previous_reading t0 ts k)
           \<and> out (idled w k ts) = out w"
proof -
  from assms obtain k where k: "k < length ts"
    and run: "monitor_loop t0 w = Ret () (idled w k ts)"
    and ge: "20 \<le> ts ! k - t0"
    and before: "\<forall>j<k. ts ! j - t0 < 20"
    using idle_loop[of w ts t0] by blast
  have "previous_reading t0 ts k - t0 < 20"
  proof (cases k)
    case 0
    then show ?thesis by (simp add: previous_reading_def)
  next
    case (Suc j)
    with before have "ts ! j - t0 < 20" by simp
    with Suc show ?thesis by (simp add: previous_reading_def)
  qed
  then have "ts ! k - t0 < 20 + (ts ! k - previous_reading t0 ts k)" by simp
  moreover have "out (idled w k ts) = out w" by (simp add: idled_def)
  ultimately show ?thesis using k run ge before by blast
qed

theorem idle_loop_ends_at_first_reading_past_the_deadline_witness:
  "rx (at_loop quiet_start (idle_script brisk_turns)) = []
   \<and> (\<exists>t\<in>set brisk_turns. 20 \<le> t - 0)
   \<and> (\<exists>k<length brisk_turns.
         monitor_loop 0 (at_loop quiet_start (idle_script brisk_turns)) =
           Ret () (idled (at_loop quiet_start (idle_script brisk_turns)) k brisk_turns)
         \<and> 20 \<le> brisk_turns ! k - 0 \<and> (\<forall>j<k. brisk_turns ! j - 0 < 20)
         \<and> brisk_turns ! k - 0 < 20 + (brisk_turns ! k - previous_reading 0 brisk_turns k)
         \<and> out (idled (at_loop quiet_start (idle_script brisk_turns)) k brisk_turns)
             = out (at_loop quiet_start (idle_script brisk_turns)))"
proof -
  have r: "rx (at_loop quiet_start (idle_script brisk_turns)) = []"
    by (simp add: at_loop_def quiet_start_def)
  have s: "script (at_loop quiet_start (idle_script brisk_turns)) = idle_script brisk_turns"
    by simp
  have d: "\<exists>t\<in>set brisk_turns. 20 \<le> t - 0" by (simp add: brisk_turns_def)
  from idle_loop_ends_at_first_reading_past_the_deadline[OF r s d] r d
  show ?thesis by blast
qed

subsection \<open>An interrupt ends the loop\<close>

lemma clean_simps [simp]:
  "clean []"
  "clean ((a, r) # es) = (r \<noteq> Raised KeyboardInterrupt \<and> clean es)"
  "clean (es @ es') = (clean es \<and> clean es')"
  by (simp_all add: clean_def)

lemma traced_Ret: "script w = es @ script w' \<Longrightarrow> clean es \<Longrightarrow> traced w (Ret a w')"
  by (auto simp: traced_def)

lemma traced_Exc:
  "script w = es @ (a, Raised e) # script w' \<Longrightarrow> clean es \<Longrightarrow> traced w (Exc e w')"
  by (auto simp: traced_def)

lemma traced_Stuck [simp]: "traced w Stuck"
  by (simp add: traced_def)

lemma traced_refl [simp]: "traced w (Ret a w)"
  by (rule traced_Ret[of _ "[]"]) simp_all

lemma traced_call:
  "traced w (time_time w)"
  "traced w (in_waiting w)"
  "traced w (readline w)"
  "traced w (time_strftime w)"
  "traced w (py_print s w)"
  "traced w (stdout_flush w)"
  "traced w (time_sleep w)"
proof -
  have one: "traced w (Ret a w')" if "script w = (b, r) # script w'"
    "r \<noteq> Raised KeyboardInterrupt" for a :: 'b and w' b r
    using that by (intro traced_Ret[of _ "[(b, r)]"]) simp_all
  have exc: "traced w (Exc e w')" if "script w = (b, Raised e) # script w'"
    for w' b e
    using that by (intro traced_Exc[of _ "[]" b]) simp_all
  show "traced w (time_time w)"
    by (auto simp: time_time_def next_event_def intro!: one exc
             split: list.splits resp.splits)
  show "traced w (in_waiting w)"
    by (auto simp: in_waiting_def next_event_def intro!: one exc
             split: list.splits resp.splits)
  show "traced w (readline w)"
    by (auto simp: readline_def next_event_def intro!: one exc
             split: list.splits resp.splits prod.splits)
  show "traced w (time_strftime w)"
    by (auto simp: time_strftime_def next_event_def intro!: one exc
             split: list.splits resp.splits)
  show "traced w (py_print s w)"
    by (auto simp: py_print_def next_event_def intro!: one exc
             split: list.splits resp.splits)
  show "traced w (stdout_flush w)"
    by (auto simp: stdout_flush_def next_event_def intro!: one exc
             split: list.splits resp.splits)
  show "traced w (time_sleep w)"
    by (auto simp: time_sleep_def next_event_def intro!: one exc
             split: list.splits resp.splits)
qed

lemma traced_trans:
  assumes "traced w (Ret a w1)" and "traced w1 r"
  shows "traced w r"
proof -
  from assms(1) obtain es where 1: "script w = es @ script w1" and c: "clean es"
    by (auto simp: traced_def)
  show ?thesis
  proof (cases r)
    case (Ret b w2)
    with assms(2) obtain es' where "script w1 = es' @ script w2" and "clean es'"
      by (auto simp: traced_def)
    with 1 c have "script w = (es @ es') @ script w2" and "clean (es @ es')" by simp_all
    then have "traced w (Ret b w2)" by (rule traced_Ret)
    with Ret show ?thesis by simp
  next
    case (Exc e w2)
    with assms(2) obtain es' a' where "script w1 = es' @ (a', Raised e) # script w2"
      and "clean es'" by (auto simp: traced_def)
    with 1 c have "script w = (es @ es') @ (a', Raised e) # script w2" and "clean (es @ es')"
      by simp_all
    then have "traced w (Exc e w2)" by (rule traced_Exc)
    with Exc show ?thesis by simp
  next
    case Stuck
    then show ?thesis by simp
  qed
qed

lemma traced_and_then:
  assumes "traced w m" and "\<And>a w1. m = Ret a w1 \<Longrightarrow> traced w1 (f a w1)"
  shows "traced w (and_then m f)"
proof (cases m)
  case (Ret a w1)
  with assms(1) have "traced w (Ret a w1)" by simp
  then have "traced w (f a w1)" using assms(2)[OF Ret] by (rule traced_trans)
  with Ret show ?thesis by simp
next
  case (Exc e w1)
  with assms(1) show ?thesis by (simp add: traced_def)
next
  case Stuck
  then show ?thesis by simp
qed

lemma traced_read_and_print: "traced w (read_and_print w)"
  unfolding read_and_print_def
proof (rule traced_and_then)
  show "traced w (readline w)" by (rule traced_call)
next
  fix raw w1
  show "traced w1 (let line = rstrip (decode_utf8_replace raw) in
          if line \<noteq> [] then
            and_then (time_strftime w1) (\<lambda>timestamp w.
            and_then (py_print (timestamp @ str '' '' @ line) w) (\<lambda>_ w. stdout_flush w))
          else Ret () w1)"
  proof (cases "rstrip (decode_utf8_replace raw) = []")
    case True
    then show ?thesis by simp
  next
    case False
    have "traced w1 (and_then (time_strftime w1) (\<lambda>timestamp w.
            and_then (py_print (timestamp @ str '' '' @ rstrip (decode_utf8_replace raw)) w)
              (\<lambda>_ w. stdout_flush w)))"
    proof (rule traced_and_then)
      show "traced w1 (time_strftime w1)" by (rule traced_call)
    next
      fix ts w2
      show "traced w2 (and_then (py_print (ts @ str '' '' @ rstrip (decode_utf8_replace raw)) w2)
              (\<lambda>_ w. stdout_flush w))"
      proof (rule traced_and_then)
        show "traced w2 (py_print (ts @ str '' '' @ rstrip (decode_utf8_replace raw)) w2)"
          by (rule traced_call)
      next
        fix u :: unit and w3
        show "traced w3 (stdout_flush w3)" by (rule traced_call)
      qed
    qed
    with False show ?thesis by (simp add: Let_def)
  qed
qed

text \<open>
  The inner handler: an \<^verbatim>\<open>Exception\<close> is answered by a print, an interrupt passes.
\<close>

lemma traced_inner_try:
  "traced w (case read_and_print w of
               Exc e w' \<Rightarrow>
                 if is_Exception e then py_print (str ''Error reading line: '' @ exn_str e) w'
                 else Exc e w'
             | r \<Rightarrow> r)"
proof (cases "read_and_print w")
  case (Ret u w1)
  with traced_read_and_print[of w] show ?thesis by simp
next
  case Stuck
  then show ?thesis by simp
next
  case (Exc e w1)
  with traced_read_and_print[of w] obtain es a where s: "script w = es @ (a, Raised e) # script w1"
    and c: "clean es" by (auto simp: traced_def)
  show ?thesis
  proof (cases "is_Exception e")
    case False
    with Exc traced_read_and_print[of w] show ?thesis by simp
  next
    case True
    then have "e \<noteq> KeyboardInterrupt" by auto
    with s c have "script w = (es @ [(a, Raised e)]) @ script w1"
      and "clean (es @ [(a, Raised e)])" by simp_all
    then have "traced w (Ret () w1)" by (rule traced_Ret)
    then have "traced w (py_print (str ''Error reading line: '' @ exn_str e) w1)"
      using traced_call(5) by (rule traced_trans)
    with Exc True show ?thesis by simp
  qed
qed

lemma traced_iteration: "traced w (iteration w)"
  unfolding iteration_def
proof (rule traced_and_then)
  show "traced w (in_waiting w)" by (rule traced_call)
next
  fix n :: nat and w1
  show "traced w1 (if 0 < n then case read_and_print w1 of
               Exc e w' \<Rightarrow>
                 if is_Exception e then py_print (str ''Error reading line: '' @ exn_str e) w'
                 else Exc e w'
             | r \<Rightarrow> r else time_sleep w1)"
    by (simp add: traced_inner_try traced_call)
qed

lemma traced_monitor_loop: "traced w (monitor_loop t0 w)"
proof (induction t0 w rule: monitor_loop.induct)
  case (1 s w)
  show ?case
  proof (cases "time_time w")
    case (Ret t w1)
    with traced_call(1)[of w] have t1: "traced w (Ret t w1)" by simp
    show ?thesis
    proof (cases "t - s < 20")
      case False
      with Ret have "monitor_loop s w = Ret () w1" by (rule monitor_loop_exit)
      moreover from t1 have "traced w (Ret () w1)" by (simp add: traced_def)
      ultimately show ?thesis by simp
    next
      case True
      have t2: "traced w (iteration w1)"
        using t1 traced_iteration by (rule traced_trans)
      show ?thesis
      proof (cases "iteration w1")
        case it: (Ret u w2)
        from Ret True it have "monitor_loop s w = monitor_loop s w2" by (rule monitor_loop_step)
        moreover from t2 it have "traced w (Ret u w2)" by simp
        then have "traced w (monitor_loop s w2)"
          using "1.IH"[OF Ret True it] by (rule traced_trans)
        ultimately show ?thesis by simp
      next
        case (Exc e w2)
        with Ret True have "monitor_loop s w = Exc e w2"
          by (subst monitor_loop.simps) simp
        with t2 Exc show ?thesis by simp
      next
        case Stuck
        with Ret True have "monitor_loop s w = Stuck"
          by (subst monitor_loop.simps) simp
        then show ?thesis by simp
      qed
    qed
  next
    case (Exc e w1)
    then have "monitor_loop s w = Exc e w1" by (subst monitor_loop.simps) simp
    with Exc traced_call(1)[of w] show ?thesis by (simp add: traced_def)
  next
    case Stuck
    then have "monitor_loop s w = Stuck" by (subst monitor_loop.simps) simp
    then show ?thesis by simp
  qed
qed

lemma clean_nth: "clean es \<Longrightarrow> i < length es \<Longrightarrow> snd (es ! i) \<noteq> Raised KeyboardInterrupt"
  by (simp add: clean_def list_all_length)

lemma interrupt_not_taken_cleanly:
  assumes "before @ (a, Raised KeyboardInterrupt) # after = es @ tail" and "clean es"
  shows "length es \<le> length before"
proof (rule ccontr)
  assume "\<not> length es \<le> length before"
  then have l: "length before < length es" by simp
  then have "es ! length before = (es @ tail) ! length before" by (simp add: nth_append)
  also have "\<dots> = (before @ (a, Raised KeyboardInterrupt) # after) ! length before"
    using assms(1) by simp
  also have "\<dots> = (a, Raised KeyboardInterrupt)" by simp
  finally have "snd (es ! length before) = Raised KeyboardInterrupt" by simp
  with clean_nth[OF assms(2) l] show False by simp
qed

lemma interrupt_ends_loop:
  assumes "clean before"
    and "script w0 = before @ (a, Raised KeyboardInterrupt) # after"
    and "world_of (monitor_loop t0 w0) = Some w"
    and "length (script w) \<le> length after"
  shows "monitor_loop t0 w0 = Exc KeyboardInterrupt w \<and> script w = after"
proof (cases "monitor_loop t0 w0")
  case Stuck
  with assms(3) show ?thesis by simp
next
  case (Ret u w')
  with assms(3) have w: "w' = w" by simp
  from traced_monitor_loop[of w0 t0] Ret w obtain es
    where s: "script w0 = es @ script w" and c: "clean es" by (auto simp: traced_def)
  from s assms(2) have e: "before @ (a, Raised KeyboardInterrupt) # after = es @ script w"
    by simp
  then have "length es \<le> length before" using c by (rule interrupt_not_taken_cleanly)
  moreover from e have "length (before @ (a, Raised KeyboardInterrupt) # after)
                          = length (es @ script w)" by simp
  then have "length before + 1 + length after = length es + length (script w)" by simp
  ultimately show ?thesis using assms(4) by simp
next
  case (Exc e w')
  with assms(3) have w: "w' = w" by simp
  from traced_monitor_loop[of w0 t0] Exc w obtain es a'
    where s: "script w0 = es @ (a', Raised e) # script w" and c: "clean es"
    by (auto simp: traced_def)
  from s assms(2)
  have e: "before @ (a, Raised KeyboardInterrupt) # after = es @ (a', Raised e) # script w"
    by simp
  then have le: "length es \<le> length before" using c by (rule interrupt_not_taken_cleanly)
  from e have "length (before @ (a, Raised KeyboardInterrupt) # after)
                 = length (es @ (a', Raised e) # script w)" by simp
  then have "length before + length after = length es + length (script w)" by simp
  with le assms(4) have "length es = length before" by simp
  with e have "es = before"
    and "(a, Raised KeyboardInterrupt) # after = (a', Raised e) # script w" by simp_all
  then have "e = KeyboardInterrupt" and "script w = after" by simp_all
  with Exc w show ?thesis by simp
qed

lemma interrupt_passes_inner_handler:
  assumes "in_waiting w = Ret n w1" and "0 < n"
    and "read_and_print w1 = Exc KeyboardInterrupt w2"
  shows "iteration w = Exc KeyboardInterrupt w2"
  using assms by (simp add: iteration_def)

lemma interrupt_leaving_loop_is_handled:
  assumes "started pre t0"
    and "monitor_loop t0 (at_loop pre es) = Exc KeyboardInterrupt w"
    and "script w = (a, Ok) # (b, Ok) # rest"
  shows "main (init (pre @ es)) =
           Ret () (w\<lparr>script := rest, rx := rx w @ a @ b, out := out w @ [stopped],
                     calls := calls w @ [CPrint stopped, CClose (Some True)],
                     ser := Some False\<rparr>)"
proof -
  from assms(2) have "world_of (monitor_loop t0 (at_loop pre es)) = Some w" by simp
  then have "polls (at_loop pre es) w" by (rule monitor_loop_polls)
  then have "ser w = Some True" by (simp add: polls_def)
  with assms show ?thesis
    by (simp add: main_def try_body_started interrupt_handler)
qed

text \<open>
  C6. As stated the claim fails when a second interrupt arrives while the handler runs:
  the handler is not protected. In the run below the first interrupt comes during
  \<^verbatim>\<open>ser.readline()\<close>, the handler prints its message, and the second interrupt comes
  during the handler's \<^verbatim>\<open>ser.close()\<close>: the script ends with a traceback and the port
  open.
\<close>

theorem interrupted_close_escapes:
  "main (init (quiet_start @ ctrl_c_twice)) =
     Exc KeyboardInterrupt
       \<lparr>script = [], rx = [0x68, 0x69], out = banner @ [stopped],
        calls = CSerial # map CPrint banner @
                  [CReset, CTime, CTime, CInWaiting, CReadline, CPrint stopped,
                   CClose (Some True)],
        ser = Some True\<rparr>
   \<and> ending_of (main (init (quiet_start @ ctrl_c_twice))) \<noteq> Some Exit0"
proof -
  have s: "started quiet_start 0" by (simp add: started_def quiet_start_def)
  have "main (init (quiet_start @ ctrl_c_twice)) =
     Exc KeyboardInterrupt
       \<lparr>script = [], rx = [0x68, 0x69], out = banner @ [stopped],
        calls = CSerial # map CPrint banner @
                  [CReset, CTime, CTime, CInWaiting, CReadline, CPrint stopped,
                   CClose (Some True)],
        ser = Some True\<rparr>"
    unfolding main_def try_body_started[OF s]
    by (auto simp: monitor_loop.simps iteration_def read_and_print_def at_loop_def
          ctrl_c_twice_def quiet_start_def handlers_def stopped_def call_Ok call_Raised took_def)
  then show ?thesis by simp
qed

text \<open>
  C6, amended. Let the loop run on events of which the first interrupt is raised by some
  call of the loop, whichever it is (the clock, the poll, the read, the timestamp, either
  print, the flush, the sleep), and let the loop get that far: its run takes the
  interrupting event. Then the loop ends there with \<^verbatim>\<open>KeyboardInterrupt\<close>, which the
  inner \<^verbatim>\<open>except Exception\<close> does not catch. When the handler's own \<^verbatim>\<open>print\<close> and
  \<^verbatim>\<open>close\<close> return, the script prints the one message of the handler, closes the handle,
  which is open throughout the loop, and ends with status 0. That the handler closes only
  an open handle is \<open>interrupt_handler\<close>.
\<close>

theorem interrupt_in_loop_is_handled:
  assumes "started pre t0" and "clean before"
    and "world_of (monitor_loop t0
           (at_loop pre (before @ (a, Raised KeyboardInterrupt) # (b, Ok) # (c, Ok) # rest)))
         = Some w"
    and "length (script w) \<le> length rest + 2"
  shows "monitor_loop t0
           (at_loop pre (before @ (a, Raised KeyboardInterrupt) # (b, Ok) # (c, Ok) # rest))
         = Exc KeyboardInterrupt w
    \<and> main (init (pre @ before @ (a, Raised KeyboardInterrupt) # (b, Ok) # (c, Ok) # rest)) =
         Ret () (w\<lparr>script := rest, rx := rx w @ b @ c, out := out w @ [stopped],
                   calls := calls w @ [CPrint stopped, CClose (Some True)],
                   ser := Some False\<rparr>)"
proof -
  let ?es = "before @ (a, Raised KeyboardInterrupt) # (b, Ok) # (c, Ok) # rest"
  have s: "script (at_loop pre ?es) = before @ (a, Raised KeyboardInterrupt) # (b, Ok) # (c, Ok) # rest"
    by simp
  from assms(4) have l: "length (script w) \<le> length ((b, Ok) # (c, Ok) # rest)" by simp
  from interrupt_ends_loop[OF assms(2) s assms(3) l]
  have loop: "monitor_loop t0 (at_loop pre ?es) = Exc KeyboardInterrupt w"
    and rest: "script w = (b, Ok) # (c, Ok) # rest" by simp_all
  from assms(1) loop rest
  have "main (init (pre @ ?es)) =
         Ret () (w\<lparr>script := rest, rx := rx w @ b @ c, out := out w @ [stopped],
                   calls := calls w @ [CPrint stopped, CClose (Some True)],
                   ser := Some False\<rparr>)"
    by (rule interrupt_leaving_loop_is_handled)
  with loop show ?thesis by simp
qed

theorem interrupt_in_loop_is_handled_witness:
  "clean [([], Clock 1), ([0x68, 0x69], Ok)]
   \<and> monitor_loop 0 (at_loop quiet_start ctrl_c_while_reading) =
       Exc KeyboardInterrupt
         \<lparr>script = [([], Ok), ([], Ok)], rx = [0x68, 0x69], out = banner,
          calls = CSerial # map CPrint banner @ [CReset, CTime, CTime, CInWaiting, CReadline],
          ser = Some True\<rparr>
   \<and> main (init (quiet_start @ ctrl_c_while_reading)) =
       Ret () \<lparr>script = [], rx = [0x68, 0x69], out = banner @ [stopped],
               calls = CSerial # map CPrint banner @
                         [CReset, CTime, CTime, CInWaiting, CReadline, CPrint stopped,
                          CClose (Some True)],
               ser = Some False\<rparr>"
proof -
  let ?w = "\<lparr>script = [([], Ok), ([], Ok)], rx = [0x68, 0x69], out = banner,
          calls = CSerial # map CPrint banner @ [CReset, CTime, CTime, CInWaiting, CReadline],
          ser = Some True\<rparr>"
  have s: "started quiet_start 0" by (simp add: started_def quiet_start_def)
  have c: "clean [([], Clock 1), ([0x68, 0x69], Ok)]" by simp
  have e: "ctrl_c_while_reading =
             [([], Clock 1), ([0x68, 0x69], Ok)] @ ([], Raised KeyboardInterrupt) # ([], Ok) # ([], Ok) # []"
    by (simp add: ctrl_c_while_reading_def)
  have "monitor_loop 0 (at_loop quiet_start
             ([([], Clock 1), ([0x68, 0x69], Ok)] @ ([], Raised KeyboardInterrupt) # ([], Ok) # ([], Ok) # []))
           = Exc KeyboardInterrupt ?w"
    by (simp add: monitor_loop.simps iteration_def read_and_print_def at_loop_def
          quiet_start_def call_Ok call_Raised took_def)
  then have l: "world_of (monitor_loop 0 (at_loop quiet_start
             ([([], Clock 1), ([0x68, 0x69], Ok)] @ ([], Raised KeyboardInterrupt) # ([], Ok) # ([], Ok) # [])))
           = Some ?w"
    by simp
  have n: "length (script ?w) \<le> length ([] :: event list) + 2" by simp
  from interrupt_in_loop_is_handled[OF s c l n] c show ?thesis
    unfolding e by simp
qed

subsection \<open>The buffer is reset once, before the loop\<close>

lemma dropWhile_all: "list_all P xs \<Longrightarrow> dropWhile P xs = []"
  by (induction xs) auto

lemma before_reset_once: "before_reset w \<Longrightarrow> reset_once (calls w)"
  by (simp add: before_reset_def reset_once_def dropWhile_all)

lemma before_reset_snoc:
  "calls w' = calls w @ [c] \<Longrightarrow> plain_call c \<Longrightarrow> before_reset w \<Longrightarrow> before_reset w'"
  by (simp add: before_reset_def)

lemma reset_begins:
  "calls w' = calls w @ [CReset] \<Longrightarrow> before_reset w \<Longrightarrow> after_reset w'"
  by (simp add: before_reset_def after_reset_def reset_once_def dropWhile_append2 list_all_iff)

lemma reset_once_append:
  assumes "reset_once cs" and "CReset \<in> set cs" and "CReset \<notin> set ds"
  shows "reset_once (cs @ ds)"
proof -
  from assms(2) have ex: "\<exists>x\<in>set cs. \<not> plain_call x"
    by (rule bexI[rotated]) simp
  then have "dropWhile plain_call cs \<noteq> []"
    by (simp add: dropWhile_eq_Nil_conv)
  then obtain c r where d: "dropWhile plain_call cs = c # r"
    by (cases "dropWhile plain_call cs") simp_all
  from ex have "dropWhile plain_call (cs @ ds) = dropWhile plain_call cs @ ds"
    by (auto simp: dropWhile_append1)
  with d assms(1,3) show ?thesis by (simp add: reset_once_def)
qed

lemma after_reset_append:
  "calls w' = calls w @ ds \<Longrightarrow> CReset \<notin> set ds \<Longrightarrow> after_reset w \<Longrightarrow> after_reset w'"
  by (simp add: after_reset_def reset_once_append)

lemma loop_call_not_reset: "list_all is_loop_call cs \<Longrightarrow> CReset \<notin> set cs"
  by (auto simp: list_all_iff)

lemma polls_after_reset:
  assumes "polls w w'" and "after_reset w"
  shows "after_reset w'"
proof -
  from assms(1) obtain cs where c: "calls w' = calls w @ cs" and l: "list_all is_loop_call cs"
    by (auto simp: polls_def)
  from l have "CReset \<notin> set cs" by (rule loop_call_not_reset)
  with c show ?thesis using assms(2) by (rule after_reset_append)
qed

lemma py_print_calls:
  "world_of (py_print s w) = Some w' \<Longrightarrow> calls w' = calls w @ [CPrint s]"
  by (auto simp: py_print_def next_event_def split: list.splits resp.splits)

lemma py_print_before_reset:
  assumes "world_of (py_print s w) = Some w'" and "before_reset w"
  shows "before_reset w'"
  using py_print_calls[OF assms(1)] _ assms(2) by (rule before_reset_snoc) simp

lemma py_print_after_reset:
  assumes "world_of (py_print s w) = Some w'" and "after_reset w"
  shows "after_reset w'"
  using py_print_calls[OF assms(1)] _ assms(2) by (rule after_reset_append) simp

lemma ser_close_before_reset:
  assumes "world_of (ser_close w) = Some w'" and "before_reset w"
  shows "before_reset w'"
  using ser_close_calls[OF assms(1)] _ assms(2) by (rule before_reset_snoc) simp

lemma ser_close_after_reset:
  assumes "world_of (ser_close w) = Some w'" and "after_reset w"
  shows "after_reset w'"
  using ser_close_calls[OF assms(1)] _ assms(2) by (rule after_reset_append) simp

lemma and_then_keeps:
  assumes "world_of (and_then m f) = Some w'"
    and "\<And>w1. world_of m = Some w1 \<Longrightarrow> I w1"
    and "\<And>a w1 w2. I w1 \<Longrightarrow> world_of (f a w1) = Some w2 \<Longrightarrow> I w2"
  shows "I w'"
  using assms(1)
proof (cases rule: and_then_cases)
  case (1 e)
  then have "world_of m = Some w'" by simp
  then show ?thesis by (rule assms(2))
next
  case (2 a w1)
  from 2(1) have "world_of m = Some w1" by simp
  then have "I w1" by (rule assms(2))
  then show ?thesis using 2(2) by (rule assms(3))
qed

lemma print_banner_before_reset:
  assumes "world_of (print_banner w) = Some w'" and "before_reset w"
  shows "before_reset w'"
  using assms(1)[unfolded print_banner_def]
proof (rule and_then_keeps)
  fix w1 assume "world_of (py_print (str ''=== ESP32 Serial Monitor ==='') w) = Some w1"
  then show "before_reset w1" using assms(2) by (rule py_print_before_reset)
next
  fix a w1 w2
  assume b: "before_reset w1"
  assume "world_of
     (and_then (py_print (str ''Port: '' @ PORT @ str '', Baud: '' @ decimal BAUDRATE) w1) (\<lambda>_ w.
      and_then (py_print (str ''Press Ctrl+C to exit'') w) (\<lambda>_ w.
      py_print (concat (replicate 50 (str ''=''))) w))) = Some w2"
  then show "before_reset w2"
  proof (rule and_then_keeps)
    fix w3
    assume "world_of (py_print (str ''Port: '' @ PORT @ str '', Baud: '' @ decimal BAUDRATE) w1)
              = Some w3"
    then show "before_reset w3" using b by (rule py_print_before_reset)
  next
    fix a w3 w4
    assume b3: "before_reset w3"
    assume "world_of (and_then (py_print (str ''Press Ctrl+C to exit'') w3) (\<lambda>_ w.
              py_print (concat (replicate 50 (str ''=''))) w)) = Some w4"
    then show "before_reset w4"
    proof (rule and_then_keeps)
      fix w5 assume "world_of (py_print (str ''Press Ctrl+C to exit'') w3) = Some w5"
      then show "before_reset w5" using b3 by (rule py_print_before_reset)
    next
      fix a w5 w6
      assume "before_reset w5"
        and "world_of (py_print (concat (replicate 50 (str ''=''))) w5) = Some w6"
      then show "before_reset w6" by (rule py_print_before_reset[rotated])
    qed
  qed
qed

lemma reset_ok_once: "reset_ok w \<Longrightarrow> reset_once (calls w)"
  by (auto simp: reset_ok_def after_reset_def before_reset_once)

lemma try_body_reset_ok:
  assumes run: "world_of (try_body w0) = Some w" and b0: "before_reset w0"
  shows "reset_ok w"
  using run[unfolded try_body_def]
proof (cases rule: and_then_cases)
  case (1 e)
  from 1 have "world_of (serial_Serial w0) = Some w" by simp
  then have "calls w = calls w0 @ [CSerial]" by (rule serial_Serial_calls)
  then have "before_reset w" using _ b0 by (rule before_reset_snoc) simp
  then show ?thesis by (simp add: reset_ok_def)
next
  case opened: (2 u1 w1)
  from opened(1) have "world_of (serial_Serial w0) = Some w1" by simp
  then have "calls w1 = calls w0 @ [CSerial]" by (rule serial_Serial_calls)
  then have b1: "before_reset w1" using _ b0 by (rule before_reset_snoc) simp
  from opened(2) show ?thesis
  proof (cases rule: and_then_cases)
    case (1 e)
    from 1 have "world_of (print_banner w1) = Some w" by simp
    then have "before_reset w" using b1 by (rule print_banner_before_reset)
    then show ?thesis by (simp add: reset_ok_def)
  next
    case bannered: (2 u2 w2)
    from bannered(1) have "world_of (print_banner w1) = Some w2" by simp
    then have b2: "before_reset w2" using b1 by (rule print_banner_before_reset)
    from bannered(2) show ?thesis
    proof (cases rule: and_then_cases)
      case (1 e)
      from 1 have "world_of (reset_input_buffer w2) = Some w" by simp
      then have "calls w = calls w2 @ [CReset]" by (simp add: reset_input_buffer_calls)
      then have "after_reset w" using b2 by (rule reset_begins)
      then show ?thesis by (simp add: reset_ok_def)
    next
      case reset: (2 u3 w3)
      from reset(1) have "world_of (reset_input_buffer w2) = Some w3" by simp
      then have "calls w3 = calls w2 @ [CReset]" by (simp add: reset_input_buffer_calls)
      then have a3: "after_reset w3" using b2 by (rule reset_begins)
      from reset(2) show ?thesis
      proof (cases rule: and_then_cases)
        case (1 e)
        from 1 have "world_of (read_and_display w3) = Some w" by simp
        then have "polls w3 w" by (rule read_and_display_polls)
        then have "after_reset w" using a3 by (rule polls_after_reset)
        then show ?thesis by (simp add: reset_ok_def)
      next
        case looped: (2 u4 w4)
        from looped(1) have "world_of (read_and_display w3) = Some w4" by simp
        then have "polls w3 w4" by (rule read_and_display_polls)
        then have a4: "after_reset w4" using a3 by (rule polls_after_reset)
        from looped(2) show ?thesis
        proof (cases rule: and_then_cases)
          case (1 e)
          from 1 have "world_of (ser_close w4) = Some w" by simp
          then have "after_reset w" using a4 by (rule ser_close_after_reset)
          then show ?thesis by (simp add: reset_ok_def)
        next
          case closed: (2 u5 w5)
          from closed(1) have "world_of (ser_close w4) = Some w5" by simp
          then have a5: "after_reset w5" using a4 by (rule ser_close_after_reset)
          from closed(2) have "after_reset w" using a5 by (rule py_print_after_reset)
          then show ?thesis by (simp add: reset_ok_def)
        qed
      qed
    qed
  qed
qed

lemma py_print_reset_ok:
  assumes "world_of (py_print s w) = Some w'" and "reset_ok w"
  shows "reset_ok w'"
  using assms by (auto simp: reset_ok_def intro: py_print_before_reset py_print_after_reset)

lemma ser_close_reset_ok:
  assumes "world_of (ser_close w) = Some w'" and "reset_ok w"
  shows "reset_ok w'"
  using assms by (auto simp: reset_ok_def intro: ser_close_before_reset ser_close_after_reset)

lemma handlers_reset_ok:
  assumes run: "world_of (handlers r) = Some w"
    and ok: "\<And>w0. world_of r = Some w0 \<Longrightarrow> reset_ok w0"
  shows "reset_ok w"
proof (cases r)
  case (Ret u w0)
  with run have "w = w0" by (simp add: handlers_def)
  with Ret ok[of w0] show ?thesis by simp
next
  case Stuck
  with run show ?thesis by (simp add: handlers_def)
next
  case (Exc e w0)
  with ok[of w0] have ok0: "reset_ok w0" by simp
  show ?thesis
  proof (cases e)
    case (SerialException m)
    with run Exc
    have "world_of (py_print (str ''Error opening serial port: '' @ exn_str e) w0) = Some w"
      by (simp add: handlers_def)
    then show ?thesis using ok0 by (rule py_print_reset_ok)
  next
    case (OtherException m)
    with run Exc
    have "world_of (py_print (str ''Unexpected error: '' @ exn_str e) w0) = Some w"
      by (simp add: handlers_def)
    then show ?thesis using ok0 by (rule py_print_reset_ok)
  next
    case KeyboardInterrupt
    with run Exc have
      "world_of (and_then (py_print (10 # str ''Monitoring stopped by user.'') w0) (\<lambda>_ w.
          if ser w \<noteq> None \<and> ser w = Some True then ser_close w else Ret () w)) = Some w"
      by (simp add: handlers_def)
    then show ?thesis
    proof (rule and_then_keeps)
      fix w1
      assume "world_of (py_print (10 # str ''Monitoring stopped by user.'') w0) = Some w1"
      then show "reset_ok w1" using ok0 by (rule py_print_reset_ok)
    next
      fix a :: unit and w1 w2
      assume ok1: "reset_ok w1"
        and *: "world_of (if ser w1 \<noteq> None \<and> ser w1 = Some True then ser_close w1
                          else Ret () w1) = Some w2"
      show "reset_ok w2"
      proof (cases "ser w1 = Some True")
        case True
        with * have "world_of (ser_close w1) = Some w2" by simp
        then show ?thesis using ok1 by (rule ser_close_reset_ok)
      next
        case False
        with * have "w2 = w1" by simp
        with ok1 show ?thesis by simp
      qed
    qed
  qed
qed

lemma main_reset_once:
  assumes "world_of (main (init es)) = Some w"
  shows "reset_once (calls w)"
proof -
  have "before_reset (init es)" by (simp add: before_reset_def init_def)
  then have "\<And>w0. world_of (try_body (init es)) = Some w0 \<Longrightarrow> reset_ok w0"
    by (rule try_body_reset_ok[rotated])
  with assms have "reset_ok w"
    unfolding main_def by (rule handlers_reset_ok)
  then show ?thesis by (rule reset_ok_once)
qed

lemma count_list_absent: "x \<notin> set xs \<Longrightarrow> count_list xs x = 0"
  by (induction xs) auto

lemma reset_once_count:
  assumes "reset_once cs" and "CTime \<in> set cs"
  shows "count_list cs CReset = 1"
proof (cases "dropWhile plain_call cs")
  case Nil
  then have "\<forall>c\<in>set cs. plain_call c" by (simp add: dropWhile_eq_Nil_conv)
  with assms(2) have "plain_call CTime" by blast
  then show ?thesis by simp
next
  case (Cons c r)
  with assms(1) have c: "c = CReset" and r: "CReset \<notin> set r"
    by (simp_all add: reset_once_def)
  have "CReset \<notin> set (takeWhile plain_call cs)"
  proof
    assume "CReset \<in> set (takeWhile plain_call cs)"
    then have "plain_call CReset" by (rule set_takeWhileD[THEN conjunct2])
    then show False by simp
  qed
  then have 0: "count_list (takeWhile plain_call cs) CReset = 0" by (rule count_list_absent)
  from r have 1: "count_list r CReset = 0" by (rule count_list_absent)
  have "cs = takeWhile plain_call cs @ dropWhile plain_call cs" by simp
  with Cons c have "cs = takeWhile plain_call cs @ CReset # r" by simp
  then have "count_list cs CReset = count_list (takeWhile plain_call cs @ CReset # r) CReset"
    by simp
  with 0 1 show ?thesis by (simp add: count_list_append)
qed

subsection \<open>Stale bytes do not reach the output\<close>

lemma blind_refl [simp]: "blind w w"
  by (simp add: blind_def)

lemma stale_blind: "stale n w w' \<Longrightarrow> blind w w'"
  by (simp add: stale_def)

lemma rel_refl: "rel (=) r r"
  by (cases r) simp_all

lemma rel_mono: "rel R r r' \<Longrightarrow> (\<And>v v'. R v v' \<Longrightarrow> S v v') \<Longrightarrow> rel S r r'"
  by (cases r; cases r') simp_all

lemma and_then_rel:
  assumes "rel R m m'"
    and "\<And>a v v'. R v v' \<Longrightarrow> rel S (f a v) (f' a v')"
  shows "rel S (and_then m f) (and_then m' f')"
  using assms by (cases m; cases m') simp_all

lemma next_event_stale:
  assumes "stale n w w'"
  shows "(next_event c w = None \<and> next_event c w' = None)
       \<or> (\<exists>r v v'. next_event c w = Some (r, v) \<and> next_event c w' = Some (r, v')
             \<and> stale (n - 1) v v')"
proof (cases "script w")
  case Nil
  with assms have "script w' = []" by (simp add: stale_def blind_def)
  with Nil show ?thesis by (simp add: next_event_def)
next
  case (Cons ev es)
  obtain a r where ev: "ev = (a, r)" by (cases ev)
  from assms Cons ev obtain a' es' where s': "script w' = (a', r) # es'"
    and m: "map snd es = map snd es'"
    by (cases "script w'") (auto simp: stale_def blind_def)
  have d: "drop (n - 1) es = drop (n - 1) es'"
  proof (cases n)
    case 0
    with assms Cons ev s' show ?thesis by (simp add: stale_def)
  next
    case (Suc k)
    with assms Cons ev s' show ?thesis by (simp add: stale_def)
  qed
  from assms have b: "out w = out w'" "calls w = calls w'" "ser w = ser w'"
    by (simp_all add: stale_def blind_def)
  have "stale (n - 1) (took c a es w) (took c a' es' w')"
    using b m d by (simp add: stale_def blind_def)
  moreover from Cons ev have "next_event c w = Some (r, took c a es w)"
    by (simp add: next_event_Cons)
  moreover from s' have "next_event c w' = Some (r, took c a' es' w')"
    by (simp add: next_event_Cons)
  ultimately show ?thesis by blast
qed

lemma stale_update:
  "stale n v v' \<Longrightarrow> stale n (v\<lparr>out := out v @ [s]\<rparr>) (v'\<lparr>out := out v' @ [s]\<rparr>)"
  "stale n v v' \<Longrightarrow> stale n (v\<lparr>ser := x\<rparr>) (v'\<lparr>ser := x\<rparr>)"
  by (simp_all add: stale_def blind_def)

lemma serial_Serial_stale:
  assumes "stale n w w'"
  shows "rel (stale (n - 1)) (serial_Serial w) (serial_Serial w')"
  using next_event_stale[OF assms, of CSerial]
  by (auto simp: serial_Serial_def stale_update stale_blind split: resp.splits)

lemma py_print_stale:
  assumes "stale n w w'"
  shows "rel (stale (n - 1)) (py_print s w) (py_print s w')"
  using next_event_stale[OF assms, of "CPrint s"]
  by (auto simp: py_print_def stale_update stale_blind split: resp.splits)

lemma ser_close_stale:
  assumes "stale n w w'"
  shows "rel (stale (n - 1)) (ser_close w) (ser_close w')"
proof -
  from assms have "ser w = ser w'" by (simp add: stale_def blind_def)
  with next_event_stale[OF assms, of "CClose (ser w)"] show ?thesis
    by (auto simp: ser_close_def stale_update stale_blind split: resp.splits)
qed

lemma stale_0_eq:
  "stale 0 v v' \<Longrightarrow> v\<lparr>rx := []\<rparr> = v'\<lparr>rx := []\<rparr>"
  by (cases v; cases v') (simp add: stale_def blind_def)

lemma reset_input_buffer_stale:
  assumes "stale n w w'" and "n \<le> 1"
  shows "rel (=) (reset_input_buffer w) (reset_input_buffer w')"
proof -
  from assms(2) have "n - 1 = 0" by simp
  with next_event_stale[OF assms(1), of CReset] show ?thesis
    by (auto simp: reset_input_buffer_def stale_0_eq stale_blind split: resp.splits)
qed

lemma blind_stale: "blind w w' \<Longrightarrow> stale (length (script w)) w w'"
proof -
  assume b: "blind w w'"
  then have "length (map snd (script w)) = length (map snd (script w'))"
    by (simp add: blind_def)
  then have "length (script w') = length (script w)" by simp
  with b show ?thesis by (simp add: stale_def)
qed

lemma py_print_blind:
  assumes "blind w w'"
  shows "rel blind (py_print s w) (py_print s w')"
  using py_print_stale[OF blind_stale[OF assms]] by (rule rel_mono) (rule stale_blind)

lemma ser_close_blind:
  assumes "blind w w'"
  shows "rel blind (ser_close w) (ser_close w')"
  using ser_close_stale[OF blind_stale[OF assms]] by (rule rel_mono) (rule stale_blind)

lemma print_banner_stale:
  assumes "stale n w w'"
  shows "rel (stale (n - 4)) (print_banner w) (print_banner w')"
  unfolding print_banner_def
proof (rule and_then_rel)
  show "rel (stale (n - 1)) (py_print (str ''=== ESP32 Serial Monitor ==='') w)
          (py_print (str ''=== ESP32 Serial Monitor ==='') w')"
    using assms by (rule py_print_stale)
next
  fix a :: unit and v v'
  assume 1: "stale (n - 1) v v'"
  show "rel (stale (n - 4))
     (and_then (py_print (str ''Port: '' @ PORT @ str '', Baud: '' @ decimal BAUDRATE) v) (\<lambda>_ w.
      and_then (py_print (str ''Press Ctrl+C to exit'') w) (\<lambda>_ w.
      py_print (concat (replicate 50 (str ''=''))) w)))
     (and_then (py_print (str ''Port: '' @ PORT @ str '', Baud: '' @ decimal BAUDRATE) v') (\<lambda>_ w.
      and_then (py_print (str ''Press Ctrl+C to exit'') w) (\<lambda>_ w.
      py_print (concat (replicate 50 (str ''=''))) w)))"
  proof (rule and_then_rel)
    show "rel (stale (n - 1 - 1))
            (py_print (str ''Port: '' @ PORT @ str '', Baud: '' @ decimal BAUDRATE) v)
            (py_print (str ''Port: '' @ PORT @ str '', Baud: '' @ decimal BAUDRATE) v')"
      using 1 by (rule py_print_stale)
  next
    fix a :: unit and u u'
    assume 2: "stale (n - 1 - 1) u u'"
    show "rel (stale (n - 4))
       (and_then (py_print (str ''Press Ctrl+C to exit'') u) (\<lambda>_ w.
          py_print (concat (replicate 50 (str ''=''))) w))
       (and_then (py_print (str ''Press Ctrl+C to exit'') u') (\<lambda>_ w.
          py_print (concat (replicate 50 (str ''=''))) w))"
    proof (rule and_then_rel)
      show "rel (stale (n - 1 - 1 - 1)) (py_print (str ''Press Ctrl+C to exit'') u)
              (py_print (str ''Press Ctrl+C to exit'') u')"
        using 2 by (rule py_print_stale)
    next
      fix a :: unit and x x'
      assume "stale (n - 1 - 1 - 1) x x'"
      then have "rel (stale (n - 1 - 1 - 1 - 1)) (py_print (concat (replicate 50 (str ''=''))) x)
              (py_print (concat (replicate 50 (str ''=''))) x')"
        by (rule py_print_stale)
      moreover have "n - 1 - 1 - 1 - 1 = n - 4" by simp
      ultimately show "rel (stale (n - 4)) (py_print (concat (replicate 50 (str ''=''))) x)
              (py_print (concat (replicate 50 (str ''=''))) x')"
        by simp
    qed
  qed
qed

lemma try_body_stale:
  assumes "stale n w w'" and "n \<le> 6"
  shows "rel (=) (try_body w) (try_body w')"
  unfolding try_body_def
proof (rule and_then_rel)
  show "rel (stale (n - 1)) (serial_Serial w) (serial_Serial w')"
    using assms(1) by (rule serial_Serial_stale)
next
  fix a :: unit and v v'
  assume 1: "stale (n - 1) v v'"
  show "rel (=)
     (and_then (print_banner v) (\<lambda>_ w.
      and_then (reset_input_buffer w) (\<lambda>_ w.
      and_then (read_and_display w) (\<lambda>_ w.
      and_then (ser_close w) (\<lambda>_ w.
      py_print (10 # str ''Monitoring complete.'') w)))))
     (and_then (print_banner v') (\<lambda>_ w.
      and_then (reset_input_buffer w) (\<lambda>_ w.
      and_then (read_and_display w) (\<lambda>_ w.
      and_then (ser_close w) (\<lambda>_ w.
      py_print (10 # str ''Monitoring complete.'') w)))))"
  proof (rule and_then_rel)
    show "rel (stale (n - 1 - 4)) (print_banner v) (print_banner v')"
      using 1 by (rule print_banner_stale)
  next
    fix a :: unit and u u'
    assume 2: "stale (n - 1 - 4) u u'"
    show "rel (=)
       (and_then (reset_input_buffer u) (\<lambda>_ w.
        and_then (read_and_display w) (\<lambda>_ w.
        and_then (ser_close w) (\<lambda>_ w.
        py_print (10 # str ''Monitoring complete.'') w))))
       (and_then (reset_input_buffer u') (\<lambda>_ w.
        and_then (read_and_display w) (\<lambda>_ w.
        and_then (ser_close w) (\<lambda>_ w.
        py_print (10 # str ''Monitoring complete.'') w))))"
    proof (rule and_then_rel)
      from assms(2) have "n - 1 - 4 \<le> 1" by simp
      with 2 show "rel (=) (reset_input_buffer u) (reset_input_buffer u')"
        by (rule reset_input_buffer_stale)
    next
      fix a :: unit and x x' :: world
      assume "x = x'"
      then show "rel (=)
         (and_then (read_and_display x) (\<lambda>_ w.
          and_then (ser_close w) (\<lambda>_ w.
          py_print (10 # str ''Monitoring complete.'') w)))
         (and_then (read_and_display x') (\<lambda>_ w.
          and_then (ser_close w) (\<lambda>_ w.
          py_print (10 # str ''Monitoring complete.'') w)))"
        by (simp add: rel_refl)
    qed
  qed
qed

lemma handlers_blind:
  assumes "rel (=) r r'"
  shows "rel blind (handlers r) (handlers r')"
proof (cases r)
  case (Ret u v)
  with assms have "r' = Ret u v" by (cases r') simp_all
  with Ret show ?thesis by (simp add: handlers_def)
next
  case Stuck
  with assms have "r' = Stuck" by (cases r') simp_all
  with Stuck show ?thesis by (simp add: handlers_def)
next
  case (Exc e v)
  with assms obtain v' where r': "r' = Exc e v'" and b: "blind v v'"
    by (cases r') simp_all
  show ?thesis
  proof (cases e)
    case (SerialException m)
    with Exc r' py_print_blind[OF b] show ?thesis by (simp add: handlers_def)
  next
    case (OtherException m)
    with Exc r' py_print_blind[OF b] show ?thesis by (simp add: handlers_def)
  next
    case KeyboardInterrupt
    have "rel blind
       (and_then (py_print (10 # str ''Monitoring stopped by user.'') v) (\<lambda>_ w.
          if ser w \<noteq> None \<and> ser w = Some True then ser_close w else Ret () w))
       (and_then (py_print (10 # str ''Monitoring stopped by user.'') v') (\<lambda>_ w.
          if ser w \<noteq> None \<and> ser w = Some True then ser_close w else Ret () w))"
    proof (rule and_then_rel)
      show "rel blind (py_print (10 # str ''Monitoring stopped by user.'') v)
              (py_print (10 # str ''Monitoring stopped by user.'') v')"
        using b by (rule py_print_blind)
    next
      fix a :: unit and x x'
      assume bx: "blind x x'"
      then have s: "ser x' = ser x" by (simp add: blind_def)
      show "rel blind (if ser x \<noteq> None \<and> ser x = Some True then ser_close x else Ret () x)
              (if ser x' \<noteq> None \<and> ser x' = Some True then ser_close x' else Ret () x')"
      proof (cases "ser x = Some True")
        case True
        with s ser_close_blind[OF bx] show ?thesis by simp
      next
        case False
        with s bx show ?thesis by simp
      qed
    qed
    with Exc r' KeyboardInterrupt show ?thesis by (simp add: handlers_def)
  qed
qed

lemma blind_same_output:
  assumes "rel blind r r'"
  shows "map_option out (world_of r) = map_option out (world_of r')"
    and "ending_of r = ending_of r'"
  using assms by (cases r; cases r'; simp add: blind_def)+

lemma init_stale:
  assumes "length pre = 6" and "map snd pre' = map snd pre"
  shows "stale 6 (init (pre @ rest)) (init (pre' @ rest))"
proof -
  from assms(2) have "length (map snd pre') = length (map snd pre)" by simp
  with assms(1) have "length pre' = 6" by simp
  with assms show ?thesis by (simp add: stale_def blind_def init_def)
qed

text \<open>
  C8. In every run the input buffer is reset at most once, and before any reading of the
  clock and any poll or read of the input; a run that reads the clock has reset it exactly
  once. The bytes that were in the buffer when it was reset (all that arrived from the
  opening of the port until the reset returned) never reach the output: two runs that
  differ only in those bytes print the same records and end the same way.
\<close>

theorem stale_input_is_discarded_once_before_the_loop:
  assumes "length pre = 6" and "map snd pre' = map snd pre"
  shows "(world_of (main (init es)) = Some w \<longrightarrow>
            reset_once (calls w)
            \<and> (CTime \<in> set (calls w) \<longrightarrow> count_list (calls w) CReset = 1))
    \<and> map_option out (world_of (main (init (pre @ rest))))
        = map_option out (world_of (main (init (pre' @ rest))))
    \<and> ending_of (main (init (pre @ rest))) = ending_of (main (init (pre' @ rest)))"
proof -
  have "stale 6 (init (pre @ rest)) (init (pre' @ rest))"
    using assms by (rule init_stale)
  then have "rel (=) (try_body (init (pre @ rest))) (try_body (init (pre' @ rest)))"
    by (rule try_body_stale) simp
  then have "rel blind (main (init (pre @ rest))) (main (init (pre' @ rest)))"
    unfolding main_def by (rule handlers_blind)
  from blind_same_output[OF this] main_reset_once[of es w] reset_once_count[of "calls w"]
  show ?thesis by simp
qed

theorem stale_input_is_discarded_once_before_the_loop_witness:
  "length stale_start = 6 \<and> map snd (take 6 quiet_start) = map snd stale_start
   \<and> map_option out (world_of (main (init (stale_start @ one_idle_turn))))
       = Some (banner @ [10 # str ''Monitoring complete.''])
   \<and> ending_of (main (init (stale_start @ one_idle_turn))) = Some Exit0
   \<and> reset_once (CSerial # map CPrint banner @
                   [CReset, CTime, CTime, CInWaiting, CSleep, CTime, CClose (Some True),
                    CPrint (10 # str ''Monitoring complete.'')])
   \<and> count_list (CSerial # map CPrint banner @
                   [CReset, CTime, CTime, CInWaiting, CSleep, CTime, CClose (Some True),
                    CPrint (10 # str ''Monitoring complete.'')]) CReset = 1"
proof -
  let ?v = "\<lparr>script = [], rx = [],
             out = banner @ [10 # str ''Monitoring complete.''],
             calls = CSerial # map CPrint banner @
                       [CReset, CTime, CTime, CInWaiting, CSleep, CTime, CClose (Some True),
                        CPrint (10 # str ''Monitoring complete.'')],
             ser = Some False\<rparr>"
  have l: "length stale_start = 6" by (simp add: stale_start_def)
  have m: "map snd (take 6 quiet_start) = map snd stale_start"
    by (simp add: stale_start_def quiet_start_def)
  have s: "started quiet_start 0" by (simp add: started_def quiet_start_def)
  have e: "take 6 quiet_start @ one_idle_turn = quiet_start @ tl one_idle_turn"
    by (simp add: quiet_start_def one_idle_turn_def)
  have "try_body (init (quiet_start @ tl one_idle_turn)) = Ret () ?v"
    unfolding try_body_started[OF s]
    by (simp add: monitor_loop.simps iteration_def at_loop_def one_idle_turn_def quiet_start_def
          call_Ok took_def)
  then have q: "main (init (take 6 quiet_start @ one_idle_turn)) = Ret () ?v"
    unfolding e by (simp add: main_def)
  then have w: "world_of (main (init (take 6 quiet_start @ one_idle_turn))) = Some ?v" by simp
  from stale_input_is_discarded_once_before_the_loop
         [OF l m, of "take 6 quiet_start @ one_idle_turn" ?v one_idle_turn] q w l m
  show ?thesis by simp
qed

end
